theory Spec2Isabelle
  imports Main
begin

section \<open>Strings\<close>

text \<open>
  A Go string is a sequence of bytes, and \<open>len\<close> and slicing count bytes; \<^typ>\<open>string\<close>
  (a list of 8-bit characters) is read the same way. Text outside ASCII is written as its
  UTF-8 bytes.
\<close>

abbreviation nl :: string where
  "nl \<equiv> [CHR 0x0A]"

text \<open>\<open>s[i:j]\<close>, for \<open>i \<le> j \<le> len(s)\<close> (its only use is under \<open>len(id) == 32\<close>).\<close>

definition slice :: "string \<Rightarrow> nat \<Rightarrow> nat \<Rightarrow> string" where
  "slice s i j = take (j - i) (drop i s)"

text \<open>\<open>strings.Contains(id, "-")\<close>: the one-byte substring occurs in \<open>id\<close>.\<close>

definition containsHyphen :: "string \<Rightarrow> bool" where
  "containsHyphen s = (CHR ''-'' \<in> set s)"

text \<open>\<open>strings.Repeat("    ", depth)\<close>; the depth starts at 0 and only grows by one.\<close>

definition indent :: "nat \<Rightarrow> string" where
  "indent depth = concat (replicate depth ''    '')"

text \<open>\<open>strings.Join(elems, sep)\<close>.\<close>

fun Join :: "string list \<Rightarrow> string \<Rightarrow> string" where
  "Join [] sep = []"
| "Join [x] sep = x"
| "Join (x # y # ys) sep = x @ sep @ Join (y # ys) sep"

text \<open>\<open>strings.Split(s, "\n")\<close>: the pieces between newlines, at least one piece.\<close>

fun SplitLines :: "string \<Rightarrow> string list" where
  "SplitLines [] = [[]]"
| "SplitLines (c # cs) =
     (if c = CHR 0x0A then [] # SplitLines cs
      else (case SplitLines cs of
              [] \<Rightarrow> [[c]]
            | l # ls \<Rightarrow> (c # l) # ls))"

section \<open>Page identifiers\<close>

definition formatPageID :: "string \<Rightarrow> string" where
  "formatPageID id' =
     (if containsHyphen id' then id'
      else if length id' = 32 then
        slice id' 0 8 @ ''-'' @ slice id' 8 12 @ ''-'' @ slice id' 12 16 @ ''-''
          @ slice id' 16 20 @ ''-'' @ slice id' 20 32
      else id')"

section \<open>The block model\<close>

text \<open>
  The types of the \<open>notionapi\<close> library, as far as the program reads them. A pointer
  field is an \<open>option\<close> (\<open>None\<close> is nil), and dereferencing nil panics.
\<close>

type_synonym BlockID = string
type_synonym Cursor = string

datatype RichText = RichText (PlainText: string)

datatype FileObject = FileObject (URL: string)

datatype Image = Image (ImageType: string) (File: "FileObject option")
  (External: "FileObject option")

datatype Icon = Icon (IconType: string) (Emoji: "string option")

text \<open>
  The dynamic type of a \<open>notionapi.Block\<close> with the payload the program reads;
  \<open>OtherBlock\<close> stands for every block type that no \<open>case\<close> of the program names.
\<close>

datatype Payload =
    ParagraphBlock "RichText list"
  | Heading1Block "RichText list"
  | Heading2Block "RichText list"
  | Heading3Block "RichText list"
  | BulletedListItemBlock "RichText list"
  | NumberedListItemBlock "RichText list"
  | ToDoBlock "RichText list" bool
  | ImageBlock Image
  | CodeBlock "RichText list" string
  | QuoteBlock "RichText list"
  | CalloutBlock "RichText list" "Icon option"
  | DividerBlock
  | ToggleBlock "RichText list"
  | TableBlock
  | TableRowBlock "RichText list list"
  | ColumnListBlock
  | ColumnBlock
  | OtherBlock

record Block =
  GetID :: BlockID
  GetHasChildren :: bool
  payload :: Payload

record Pagination =
  StartCursor :: Cursor
  PageSize :: int

record GetChildrenResponse =
  Results :: "Block list"
  HasMore :: bool
  NextCursor :: string

section \<open>The remote collaborators and the state of a run\<close>

datatype error = Error string | Panic string

text \<open>
  One list-children operation as it happened: the node asked for, the pagination sent and
  the answer (\<open>Inl\<close> the error of the transport).
\<close>

datatype Call = Call (callee: BlockID) (sent: Pagination)
  (answer: "string + GetChildrenResponse")

text \<open>
  \<open>client.Block.GetChildren\<close>: the answer of the remote API may depend on how many
  operations the run has performed before, besides the request itself.
\<close>

type_synonym Client = "nat \<Rightarrow> BlockID \<Rightarrow> Pagination \<Rightarrow> string + GetChildrenResponse"

text \<open>
  \<open>client.Chat.Completions.New\<close>: from the key, the model, the system message and the
  user message to the contents of the choices returned, or an error.
\<close>

type_synonym Chat = "string \<Rightarrow> string \<Rightarrow> string \<Rightarrow> string \<Rightarrow> string + string list"

text \<open>
  What a run changes: the package-level map \<open>blockChildren\<close>, the two output streams
  (\<open>log\<close> writes to the second, its time stamps left out), the \<open>strings.Builder\<close> of
  \<open>main\<close>, and the history of the operations performed on the two remote services.
\<close>

record world =
  blockChildren :: "BlockID \<rightharpoonup> Block list"
  stdout :: string
  stderr :: string
  contentBuilder :: string
  calls :: "Call list"
  chatCalls :: "string list"

definition start :: world where
  "start = \<lparr>blockChildren = Map.empty, stdout = [], stderr = [], contentBuilder = [],
     calls = [], chatCalls = []\<rparr>"

section \<open>Rendering one block\<close>

fun getRichTextContent :: "RichText list \<Rightarrow> string" where
  "getRichTextContent richText = concat (map PlainText richText)"

definition defaultIcon :: string where
  "defaultIcon = [CHR 0xF0, CHR 0x9F, CHR 0x92, CHR 0xA1]"

definition nilDereference :: error where
  "nilDereference = Panic ''invalid memory address or nil pointer dereference''"

text \<open>What \<open>printBlock\<close> writes to the standard output, or the panic it raises.\<close>

fun printBlock :: "Block \<Rightarrow> nat \<Rightarrow> error + string" where
  "printBlock block depth =
     (case payload block of
        ParagraphBlock rt \<Rightarrow> Inr (indent depth @ getRichTextContent rt @ nl @ nl)
      | Heading1Block rt \<Rightarrow> Inr (indent depth @ ''# '' @ getRichTextContent rt @ nl @ nl)
      | Heading2Block rt \<Rightarrow> Inr (indent depth @ ''## '' @ getRichTextContent rt @ nl @ nl)
      | Heading3Block rt \<Rightarrow> Inr (indent depth @ ''### '' @ getRichTextContent rt @ nl @ nl)
      | BulletedListItemBlock rt \<Rightarrow> Inr (indent depth @ ''- '' @ getRichTextContent rt @ nl)
      | NumberedListItemBlock rt \<Rightarrow> Inr (indent depth @ ''1. '' @ getRichTextContent rt @ nl)
      | ToDoBlock rt checked \<Rightarrow>
          Inr (indent depth @ ''- '' @ (if checked then ''[x]'' else ''[ ]'') @ '' ''
                 @ getRichTextContent rt @ nl)
      | ImageBlock img \<Rightarrow>
          if ImageType img = ''external'' then
            (case External img of
               None \<Rightarrow> Inl nilDereference
             | Some f \<Rightarrow> Inr (indent depth @ ''![Image]('' @ URL f @ '')'' @ nl @ nl))
          else if ImageType img = ''file'' then
            (case File img of
               None \<Rightarrow> Inl nilDereference
             | Some f \<Rightarrow> Inr (indent depth @ ''![Image]('' @ URL f @ '')'' @ nl @ nl))
          else Inr []
      | CodeBlock rt language \<Rightarrow>
          Inr (indent depth @ ''```'' @ language @ nl
                 @ indent depth @ getRichTextContent rt @ nl
                 @ indent depth @ ''```'' @ nl @ nl)
      | QuoteBlock rt \<Rightarrow>
          Inr (concat (map (\<lambda>line. indent depth @ ''> '' @ line @ nl)
                         (SplitLines (getRichTextContent rt))) @ nl)
      | CalloutBlock rt icon \<Rightarrow>
          (case icon of
             None \<Rightarrow>
               Inr (indent depth @ ''> '' @ defaultIcon @ '' '' @ getRichTextContent rt @ nl @ nl)
           | Some i \<Rightarrow>
               if IconType i = ''emoji'' then
                 (case Emoji i of
                    None \<Rightarrow> Inl nilDereference
                  | Some e \<Rightarrow>
                      Inr (indent depth @ ''> '' @ e @ '' '' @ getRichTextContent rt @ nl @ nl))
               else
                 Inr (indent depth @ ''> '' @ defaultIcon @ '' '' @ getRichTextContent rt
                        @ nl @ nl))
      | DividerBlock \<Rightarrow> Inr (indent depth @ ''---'' @ nl @ nl)
      | ToggleBlock rt \<Rightarrow> Inr (indent depth @ ''- '' @ getRichTextContent rt @ nl)
      | TableBlock \<Rightarrow> Inr []
      | TableRowBlock cells \<Rightarrow>
          Inr (indent depth @ ''| '' @ Join (map getRichTextContent cells) '' | '' @ '' |'' @ nl)
      | ColumnListBlock \<Rightarrow> Inr []
      | ColumnBlock \<Rightarrow> Inr []
      | OtherBlock \<Rightarrow> Inr [])"

text \<open>
  The \<open>switch\<close> of \<open>collectContent\<close>: the string its selected \<open>case\<close> writes to the
  builder, nothing where no \<open>case\<close> is selected.
\<close>

fun collectText :: "Block \<Rightarrow> string" where
  "collectText block =
     (case payload block of
        ParagraphBlock rt \<Rightarrow> getRichTextContent rt
      | Heading1Block rt \<Rightarrow> getRichTextContent rt
      | Heading2Block rt \<Rightarrow> getRichTextContent rt
      | Heading3Block rt \<Rightarrow> getRichTextContent rt
      | BulletedListItemBlock rt \<Rightarrow> getRichTextContent rt
      | NumberedListItemBlock rt \<Rightarrow> getRichTextContent rt
      | ToDoBlock rt checked \<Rightarrow> getRichTextContent rt
      | QuoteBlock rt \<Rightarrow> getRichTextContent rt
      | CalloutBlock rt icon \<Rightarrow> getRichTextContent rt
      | ToggleBlock rt \<Rightarrow> getRichTextContent rt
      | _ \<Rightarrow> [])"

section \<open>Fetching\<close>

text \<open>
  The loops of the program end only when the remote API lets them: the first of
  \<open>fetchChildBlocks\<close> runs while the answer says \<open>HasMore\<close>, and the recursion goes as
  deep as the answers say \<open>HasChildren\<close>. The first argument of each function below bounds
  the pages asked for one node and the depth of the recursion; \<open>None\<close> is a run that
  has not returned within the bound.
\<close>

text \<open>The pagination loop of \<open>fetchChildBlocks\<close>.\<close>

fun fetchPages :: "nat \<Rightarrow> Client \<Rightarrow> BlockID \<Rightarrow> Cursor \<Rightarrow> Block list \<Rightarrow> world
    \<Rightarrow> ((error + Block list) \<times> world) option" where
  "fetchPages 0 client blockID cursor blocks w = None"
| "fetchPages (Suc fuel) client blockID cursor blocks w =
     (let pg = \<lparr>StartCursor = cursor, PageSize = 100\<rparr>;
          r = client (length (calls w)) blockID pg;
          w' = w\<lparr>calls := calls w @ [Call blockID pg r]\<rparr>
      in case r of
           Inl err \<Rightarrow> Some (Inl (Error (''failed to get blocks: '' @ err)), w')
         | Inr resp \<Rightarrow>
             if \<not> HasMore resp then Some (Inr (blocks @ Results resp), w')
             else fetchPages fuel client blockID (NextCursor resp) (blocks @ Results resp) w')"

text \<open>\<open>fetchChildBlocks\<close>, and its second loop over the blocks fetched.\<close>

fun fetchChildBlocks :: "nat \<Rightarrow> Client \<Rightarrow> BlockID \<Rightarrow> world
    \<Rightarrow> ((error + Block list) \<times> world) option"
  and fetchEach :: "nat \<Rightarrow> Client \<Rightarrow> Block list \<Rightarrow> world
    \<Rightarrow> ((error + unit) \<times> world) option" where
  "fetchChildBlocks 0 client blockID w = None"
| "fetchChildBlocks (Suc fuel) client blockID w =
     (case fetchPages (Suc fuel) client blockID [] [] w of
        None \<Rightarrow> None
      | Some (Inl err, w') \<Rightarrow> Some (Inl err, w')
      | Some (Inr blocks, w') \<Rightarrow>
          (case fetchEach fuel client blocks w' of
             None \<Rightarrow> None
           | Some (Inl err, w'') \<Rightarrow> Some (Inl err, w'')
           | Some (Inr u, w'') \<Rightarrow> Some (Inr blocks, w'')))"
| "fetchEach fuel client [] w = Some (Inr (), w)"
| "fetchEach fuel client (block # rest) w =
     (if GetHasChildren block then
        (case fetchChildBlocks fuel client (GetID block) w of
           None \<Rightarrow> None
         | Some (Inl err, w') \<Rightarrow> Some (Inl err, w')
         | Some (Inr childBlocks, w') \<Rightarrow>
             fetchEach fuel client rest
               (w'\<lparr>blockChildren := (blockChildren w')(GetID block \<mapsto> childBlocks)\<rparr>))
      else fetchEach fuel client rest w)"

section \<open>The two walks\<close>

text \<open>\<open>printBlocksRecursive\<close>, and its loop over the blocks fetched.\<close>

fun printBlocksRecursive :: "nat \<Rightarrow> Client \<Rightarrow> BlockID \<Rightarrow> nat \<Rightarrow> world
    \<Rightarrow> ((error + unit) \<times> world) option"
  and printEach :: "nat \<Rightarrow> Client \<Rightarrow> Block list \<Rightarrow> nat \<Rightarrow> world
    \<Rightarrow> ((error + unit) \<times> world) option" where
  "printBlocksRecursive 0 client blockID depth w = None"
| "printBlocksRecursive (Suc fuel) client blockID depth w =
     (case fetchChildBlocks (Suc fuel) client blockID w of
        None \<Rightarrow> None
      | Some (Inl err, w') \<Rightarrow> Some (Inl err, w')
      | Some (Inr blocks, w') \<Rightarrow> printEach fuel client blocks depth w')"
| "printEach fuel client [] depth w = Some (Inr (), w)"
| "printEach fuel client (block # rest) depth w =
     (case printBlock block depth of
        Inl err \<Rightarrow> Some (Inl err, w)
      | Inr out \<Rightarrow>
          if blockChildren w (GetID block) \<noteq> None then
            (case printBlocksRecursive fuel client (GetID block) (depth + 1)
                    (w\<lparr>stdout := stdout w @ out\<rparr>) of
               None \<Rightarrow> None
             | Some (Inl err, w') \<Rightarrow> Some (Inl err, w')
             | Some (Inr u, w') \<Rightarrow> printEach fuel client rest depth w')
          else printEach fuel client rest depth (w\<lparr>stdout := stdout w @ out\<rparr>))"

text \<open>\<open>collectContent\<close>, and its loop over the blocks fetched.\<close>

fun collectContent :: "nat \<Rightarrow> Client \<Rightarrow> BlockID \<Rightarrow> world
    \<Rightarrow> ((error + unit) \<times> world) option"
  and collectEach :: "nat \<Rightarrow> Client \<Rightarrow> Block list \<Rightarrow> world
    \<Rightarrow> ((error + unit) \<times> world) option" where
  "collectContent 0 client blockID w = None"
| "collectContent (Suc fuel) client blockID w =
     (case fetchChildBlocks (Suc fuel) client blockID w of
        None \<Rightarrow> None
      | Some (Inl err, w') \<Rightarrow> Some (Inl err, w')
      | Some (Inr blocks, w') \<Rightarrow> collectEach fuel client blocks w')"
| "collectEach fuel client [] w = Some (Inr (), w)"
| "collectEach fuel client (block # rest) w =
     (if blockChildren w (GetID block) \<noteq> None then
        (case collectContent fuel client (GetID block)
                (w\<lparr>contentBuilder := contentBuilder w @ collectText block @ nl @ nl\<rparr>) of
           None \<Rightarrow> None
         | Some (Inl err, w') \<Rightarrow> Some (Inl err, w')
         | Some (Inr u, w') \<Rightarrow> collectEach fuel client rest w')
      else collectEach fuel client rest
             (w\<lparr>contentBuilder := contentBuilder w @ collectText block @ nl @ nl\<rparr>))"

section \<open>The summary and the program\<close>

text \<open>\<open>os.Getenv\<close>: the empty string for a variable that is not set.\<close>

definition Getenv :: "(string \<rightharpoonup> string) \<Rightarrow> string \<Rightarrow> string" where
  "Getenv env key = (case env key of None \<Rightarrow> [] | Some v \<Rightarrow> v)"

definition systemMessage :: string where
  "systemMessage = [
     CHR 0xE3, CHR 0x81, CHR 0x82, CHR 0xE3, CHR 0x81, CHR 0xAA,
     CHR 0xE3, CHR 0x81, CHR 0x9F, CHR 0xE3, CHR 0x81, CHR 0xAF,
     CHR 0xE4, CHR 0xB8, CHR 0x8E, CHR 0xE3, CHR 0x81, CHR 0x88,
     CHR 0xE3, CHR 0x82, CHR 0x89, CHR 0xE3, CHR 0x82, CHR 0x8C,
     CHR 0xE3, CHR 0x81, CHR 0x9F, CHR 0xE3, CHR 0x83, CHR 0x86,
     CHR 0xE3, CHR 0x82, CHR 0xAD, CHR 0xE3, CHR 0x82, CHR 0xB9,
     CHR 0xE3, CHR 0x83, CHR 0x88, CHR 0xE3, CHR 0x82, CHR 0x92,
     CHR 0xE8, CHR 0xA6, CHR 0x81, CHR 0xE7, CHR 0xB4, CHR 0x84,
     CHR 0xE3, CHR 0x81, CHR 0x99, CHR 0xE3, CHR 0x82, CHR 0x8B,
     CHR 0xE5, CHR 0xB0, CHR 0x82, CHR 0xE9, CHR 0x96, CHR 0x80,
     CHR 0xE5, CHR 0xAE, CHR 0xB6, CHR 0xE3, CHR 0x81, CHR 0xA7,
     CHR 0xE3, CHR 0x81, CHR 0x99, CHR 0xE3, CHR 0x80, CHR 0x82,
     CHR 0xE9, CHR 0x87, CHR 0x8D, CHR 0xE8, CHR 0xA6, CHR 0x81,
     CHR 0xE3, CHR 0x81, CHR 0xAA, CHR 0xE3, CHR 0x83, CHR 0x9D,
     CHR 0xE3, CHR 0x82, CHR 0xA4, CHR 0xE3, CHR 0x83, CHR 0xB3,
     CHR 0xE3, CHR 0x83, CHR 0x88, CHR 0xE3, CHR 0x82, CHR 0x92,
     CHR 0xE7, CHR 0xAE, CHR 0x87, CHR 0xE6, CHR 0x9D, CHR 0xA1,
     CHR 0xE6, CHR 0x9B, CHR 0xB8, CHR 0xE3, CHR 0x81, CHR 0x8D,
     CHR 0xE3, CHR 0x81, CHR 0xA7, CHR 0x33, CHR 0x2D, CHR 0x35,
     CHR 0xE5, CHR 0x80, CHR 0x8B, CHR 0xE7, CHR 0xA8, CHR 0x8B,
     CHR 0xE5, CHR 0xBA, CHR 0xA6, CHR 0xE3, CHR 0x81, CHR 0xAB,
     CHR 0xE3, CHR 0x81, CHR 0xBE, CHR 0xE3, CHR 0x81, CHR 0xA8,
     CHR 0xE3, CHR 0x82, CHR 0x81, CHR 0xE3, CHR 0x81, CHR 0xA6,
     CHR 0xE3, CHR 0x81, CHR 0x8F, CHR 0xE3, CHR 0x81, CHR 0xA0,
     CHR 0xE3, CHR 0x81, CHR 0x95, CHR 0xE3, CHR 0x81, CHR 0x84,
     CHR 0xE3, CHR 0x80, CHR 0x82]"

definition summarizeContent :: "(string \<rightharpoonup> string) \<Rightarrow> Chat \<Rightarrow> string \<Rightarrow> world
    \<Rightarrow> (error + string) \<times> world" where
  "summarizeContent env chat content w =
     (let apiKey = Getenv env ''OPENAI_API_KEY'' in
      if apiKey = [] then (Inl (Error ''OPENAI_API_KEY is not set''), w)
      else
        (let w' = w\<lparr>chatCalls := chatCalls w @ [content]\<rparr> in
         case chat apiKey ''gpt-4'' systemMessage content of
           Inl err \<Rightarrow> (Inl (Error (''summarization failed: '' @ err)), w')
         | Inr choices \<Rightarrow>
             (case choices of
                [] \<Rightarrow> (Inl (Panic ''index out of range [0] with length 0''), w')
              | c # cs \<Rightarrow> (Inr c, w'))))"

text \<open>How the process ends: \<open>os.Exit\<close> with a status (0 when \<open>main\<close> returns), or a panic.\<close>

datatype exit = Exit nat | Crash string

definition summaryHeader :: string where
  "summaryHeader = nl @ ''=== AI '' @ [
       CHR 0xE3, CHR 0x81, CHR 0xAB, CHR 0xE3, CHR 0x82, CHR 0x88, CHR 0xE3, CHR 0x82,
       CHR 0x8B, CHR 0xE8, CHR 0xA6, CHR 0x81, CHR 0xE7, CHR 0xB4, CHR 0x84] @ '' ==='' @ nl"

text \<open>
  What \<open>log.Fatalf\<close> does with an error in \<open>main\<close>; a panic is not an error value and
  ends the process by itself.
\<close>

fun fatal :: "string \<Rightarrow> error \<Rightarrow> world \<Rightarrow> exit \<times> world" where
  "fatal msg (Error e) w = (Exit 1, w\<lparr>stderr := stderr w @ msg @ e @ nl\<rparr>)"
| "fatal msg (Panic p) w = (Crash p, w)"

text \<open>
  \<open>main\<close>, from \<open>os.Args\<close>, the environment, the two remote services (the first one as
  \<open>notionapi.NewClient\<close> makes it from the token) and the bound on the loops.
\<close>

definition main :: "string list \<Rightarrow> (string \<rightharpoonup> string) \<Rightarrow> (string \<Rightarrow> Client) \<Rightarrow> Chat \<Rightarrow> nat
    \<Rightarrow> (exit \<times> world) option" where
  "main args env NewClient chat fuel =
     (if length args \<noteq> 2 then
        Some (Exit 1, start\<lparr>stdout := ''Usage: go run main.go <page-id>'' @ nl\<rparr>)
      else
        (let token = Getenv env ''NOTION_API_TOKEN'' in
         if token = [] then
           Some (Exit 1, start\<lparr>stderr := ''NOTION_API_TOKEN is not set'' @ nl\<rparr>)
         else
           (let pageID = formatPageID (args ! 1);
                client = NewClient token
            in case printBlocksRecursive fuel client pageID 0 start of
                 None \<Rightarrow> None
               | Some (Inl err, w1) \<Rightarrow> Some (fatal ''Error fetching blocks: '' err w1)
               | Some (Inr u, w1) \<Rightarrow>
                   (case collectContent fuel client pageID w1 of
                      None \<Rightarrow> None
                    | Some (Inl err, w2) \<Rightarrow> Some (fatal ''Error collecting content: '' err w2)
                    | Some (Inr u', w2) \<Rightarrow>
                        (let content = contentBuilder w2;
                             w3 = w2\<lparr>stdout := stdout w2 @ summaryHeader @ nl\<rparr>
                         in case summarizeContent env chat content w3 of
                              (Inl (Error e), w4) \<Rightarrow>
                                Some (Exit 0,
                                  w4\<lparr>stderr := stderr w4 @ ''Error generating summary: '' @ e @ nl\<rparr>)
                            | (Inl (Panic p), w4) \<Rightarrow> Some (Crash p, w4)
                            | (Inr summary, w4) \<Rightarrow>
                                Some (Exit 0, w4\<lparr>stdout := stdout w4 @ summary @ nl\<rparr>))))))"

section \<open>Reading the history of a run\<close>

text \<open>The blocks an operation returned: none when it failed.\<close>

fun resultsOf :: "Call \<Rightarrow> Block list" where
  "resultsOf c = (case answer c of Inl err \<Rightarrow> [] | Inr resp \<Rightarrow> Results resp)"

text \<open>All blocks fetched by a sequence of operations, in the order they arrived.\<close>

definition fetched :: "Call list \<Rightarrow> Block list" where
  "fetched cs = concat (map resultsOf cs)"

text \<open>The identifiers of the blocks among them that arrived with \<open>has_children\<close> set.\<close>

definition withChildren :: "Block list \<Rightarrow> BlockID set" where
  "withChildren bs = set (map GetID (filter GetHasChildren bs))"

text \<open>The error \<open>fetchChildBlocks\<close> makes of a failed operation.\<close>

definition fetchError :: "error \<Rightarrow> bool" where
  "fetchError err =
     (case err of
        Error msg \<Rightarrow> take 22 msg = ''failed to get blocks: ''
      | Panic p \<Rightarrow> False)"

text \<open>Some operation of the sequence failed.\<close>

definition anyFailed :: "Call list \<Rightarrow> bool" where
  "anyFailed cs = list_ex (\<lambda>c. isl (answer c)) cs"

section \<open>Reading the output\<close>

text \<open>The number of space characters a string begins with.\<close>

definition leadingSpaces :: "string \<Rightarrow> nat" where
  "leadingSpaces s = length (takeWhile (\<lambda>c. c = CHR '' '') s)"

text \<open>The lines written: the pieces that a newline ends.\<close>

definition emittedLines :: "string \<Rightarrow> string list" where
  "emittedLines out = butlast (SplitLines out)"

text \<open>The line begins with the indentation of the depth: four spaces for each level.\<close>

definition indented :: "nat \<Rightarrow> string \<Rightarrow> bool" where
  "indented depth line = (take (4 * depth) line = replicate (4 * depth) (CHR '' ''))"

text \<open>The string holds no newline.\<close>

definition oneLine :: "string \<Rightarrow> bool" where
  "oneLine s = (CHR 0x0A \<notin> set s)"

text \<open>
  None of the strings that \<open>printBlock\<close> prints for the payload holds a newline. The
  text of a quote is free: \<open>printBlock\<close> splits it into its lines.
\<close>

fun singleLine :: "Payload \<Rightarrow> bool" where
  "singleLine (ParagraphBlock rt) = oneLine (getRichTextContent rt)"
| "singleLine (Heading1Block rt) = oneLine (getRichTextContent rt)"
| "singleLine (Heading2Block rt) = oneLine (getRichTextContent rt)"
| "singleLine (Heading3Block rt) = oneLine (getRichTextContent rt)"
| "singleLine (BulletedListItemBlock rt) = oneLine (getRichTextContent rt)"
| "singleLine (NumberedListItemBlock rt) = oneLine (getRichTextContent rt)"
| "singleLine (ToDoBlock rt checked) = oneLine (getRichTextContent rt)"
| "singleLine (ImageBlock img) =
     ((case External img of None \<Rightarrow> True | Some f \<Rightarrow> oneLine (URL f)) \<and>
      (case File img of None \<Rightarrow> True | Some f \<Rightarrow> oneLine (URL f)))"
| "singleLine (CodeBlock rt language) = (oneLine (getRichTextContent rt) \<and> oneLine language)"
| "singleLine (QuoteBlock rt) = True"
| "singleLine (CalloutBlock rt icon) =
     (oneLine (getRichTextContent rt) \<and>
      (case icon of
         None \<Rightarrow> True
       | Some i \<Rightarrow> (case Emoji i of None \<Rightarrow> True | Some e \<Rightarrow> oneLine e)))"
| "singleLine DividerBlock = True"
| "singleLine (ToggleBlock rt) = oneLine (getRichTextContent rt)"
| "singleLine TableBlock = True"
| "singleLine (TableRowBlock cells) = list_all (\<lambda>cell. oneLine (getRichTextContent cell)) cells"
| "singleLine ColumnListBlock = True"
| "singleLine ColumnBlock = True"
| "singleLine OtherBlock = True"

text \<open>
  The kinds whose pattern in \<open>printBlock\<close> ends with a blank line: a second newline in
  the format string, or the \<open>fmt.Println()\<close> after the lines of a quote.
\<close>

fun blankLineAfter :: "Payload \<Rightarrow> bool" where
  "blankLineAfter (ParagraphBlock rt) = True"
| "blankLineAfter (Heading1Block rt) = True"
| "blankLineAfter (Heading2Block rt) = True"
| "blankLineAfter (Heading3Block rt) = True"
| "blankLineAfter (BulletedListItemBlock rt) = False"
| "blankLineAfter (NumberedListItemBlock rt) = False"
| "blankLineAfter (ToDoBlock rt checked) = False"
| "blankLineAfter (ImageBlock img) = True"
| "blankLineAfter (CodeBlock rt language) = True"
| "blankLineAfter (QuoteBlock rt) = True"
| "blankLineAfter (CalloutBlock rt icon) = True"
| "blankLineAfter DividerBlock = True"
| "blankLineAfter (ToggleBlock rt) = False"
| "blankLineAfter TableBlock = False"
| "blankLineAfter (TableRowBlock cells) = False"
| "blankLineAfter ColumnListBlock = False"
| "blankLineAfter ColumnBlock = False"
| "blankLineAfter OtherBlock = False"

section \<open>Remote services\<close>


text \<open>The operations that fetch these pages, one for each page.\<close>

fun exchanges :: "BlockID \<Rightarrow> Cursor \<Rightarrow> GetChildrenResponse list \<Rightarrow> Call list" where
  "exchanges blockID cursor [] = []"
| "exchanges blockID cursor (resp # later) =
     Call blockID \<lparr>StartCursor = cursor, PageSize = 100\<rparr> (Inr resp)
       # exchanges blockID (NextCursor resp) later"

text \<open>
  A remote API that holds one document and never fails: \<open>kids\<close> gives the children of
  every node, and each list of children comes in one page.
\<close>

definition serving :: "(BlockID \<Rightarrow> Block list) \<Rightarrow> Client" where
  "serving kids k blockID pg = Inr \<lparr>Results = kids blockID, HasMore = False, NextCursor = []\<rparr>"

text \<open>
  Below the blocks \<open>bs\<close>, blocks that say \<open>has_children\<close> are nested at most \<open>n\<close> levels
  deep.
\<close>

fun nestingWithin :: "(BlockID \<Rightarrow> Block list) \<Rightarrow> nat \<Rightarrow> Block list \<Rightarrow> bool" where
  "nestingWithin kids n [] = True"
| "nestingWithin kids n (b # bs) =
     ((if GetHasChildren b
       then (case n of 0 \<Rightarrow> False | Suc k \<Rightarrow> nestingWithin kids k (kids (GetID b)))
       else True) \<and>
      nestingWithin kids n bs)"

text \<open>
  The document in depth-first order, flattened: each block gives the text that
  \<open>collectText\<close> selects and a blank-line separator, then its children follow.
\<close>

fun depthFirstText :: "(BlockID \<Rightarrow> Block list) \<Rightarrow> nat \<Rightarrow> Block list \<Rightarrow> string" where
  "depthFirstText kids n [] = []"
| "depthFirstText kids n (b # bs) =
     collectText b @ nl @ nl
       @ (if GetHasChildren b
          then (case n of 0 \<Rightarrow> [] | Suc k \<Rightarrow> depthFirstText kids k (kids (GetID b)))
          else [])
       @ depthFirstText kids n bs"

text \<open>
  The document in depth-first order, rendered: each block gives what \<open>printBlock\<close>
  writes for it at its depth, then its children follow one level deeper.
\<close>

fun depthFirstRendering :: "(BlockID \<Rightarrow> Block list) \<Rightarrow> nat \<Rightarrow> nat \<Rightarrow> Block list \<Rightarrow> string" where
  "depthFirstRendering kids n depth [] = []"
| "depthFirstRendering kids n depth (b # bs) =
     (case printBlock b depth of Inl err \<Rightarrow> [] | Inr out \<Rightarrow> out)
       @ (if GetHasChildren b
          then (case n of
                  0 \<Rightarrow> []
                | Suc k \<Rightarrow> depthFirstRendering kids k (depth + 1) (kids (GetID b)))
          else [])
       @ depthFirstRendering kids n depth bs"

text \<open>No block of the document makes \<open>printBlock\<close> panic.\<close>

definition neverPanics :: "(BlockID \<Rightarrow> Block list) \<Rightarrow> bool" where
  "neverPanics kids = (\<forall>p. \<forall>b\<in>set (kids p). \<forall>depth. \<not> isl (printBlock b depth))"

text \<open>
  The kinds that carry a text payload, each with its text runs: paragraph, the three
  headings, bulleted, numbered and checkbox items, quote, callout and toggle (the
  collapsible section).
\<close>

fun textPayload :: "Payload \<Rightarrow> RichText list option" where
  "textPayload (ParagraphBlock rt) = Some rt"
| "textPayload (Heading1Block rt) = Some rt"
| "textPayload (Heading2Block rt) = Some rt"
| "textPayload (Heading3Block rt) = Some rt"
| "textPayload (BulletedListItemBlock rt) = Some rt"
| "textPayload (NumberedListItemBlock rt) = Some rt"
| "textPayload (ToDoBlock rt checked) = Some rt"
| "textPayload (QuoteBlock rt) = Some rt"
| "textPayload (CalloutBlock rt icon) = Some rt"
| "textPayload (ToggleBlock rt) = Some rt"
| "textPayload (ImageBlock img) = None"
| "textPayload (CodeBlock rt language) = None"
| "textPayload DividerBlock = None"
| "textPayload TableBlock = None"
| "textPayload (TableRowBlock cells) = None"
| "textPayload ColumnListBlock = None"
| "textPayload ColumnBlock = None"
| "textPayload OtherBlock = None"

text \<open>The identifiers of the blocks of the document that say \<open>has_children\<close>.\<close>

definition docParents :: "(BlockID \<Rightarrow> Block list) \<Rightarrow> BlockID set" where
  "docParents kids = {i. \<exists>p. \<exists>b\<in>set (kids p). GetID b = i \<and> GetHasChildren b}"

text \<open>Blocks of the document with the same identifier agree on \<open>has_children\<close>.\<close>

definition consistentFlags :: "(BlockID \<Rightarrow> Block list) \<Rightarrow> bool" where
  "consistentFlags kids =
     (\<forall>p p'. \<forall>b\<in>set (kids p). \<forall>b'\<in>set (kids p').
        GetID b = GetID b' \<longrightarrow> GetHasChildren b = GetHasChildren b')"

section \<open>Example documents and services\<close>

definition leaf :: "BlockID \<Rightarrow> Payload \<Rightarrow> Block" where
  "leaf i p = \<lparr>GetID = i, GetHasChildren = False, payload = p\<rparr>"

definition branch :: "BlockID \<Rightarrow> Payload \<Rightarrow> Block" where
  "branch i p = \<lparr>GetID = i, GetHasChildren = True, payload = p\<rparr>"

definition lastPage :: "Block list \<Rightarrow> GetChildrenResponse" where
  "lastPage bs = \<lparr>Results = bs, HasMore = False, NextCursor = []\<rparr>"

text \<open>A service that is down.\<close>

definition down :: Client where
  "down k blockID pg = Inl ''timeout''"

text \<open>A service that answers its first operation, with one paragraph, and then fails.\<close>

definition flaky :: Client where
  "flaky k blockID pg =
     (if k = 0 then Inr (lastPage [leaf ''p'' (ParagraphBlock [RichText ''hi''])])
      else Inl ''timeout'')"

text \<open>A toggle under the page \<open>root\<close>, one paragraph under the toggle.\<close>

definition nestedKids :: "BlockID \<Rightarrow> Block list" where
  "nestedKids blockID =
     (if blockID = ''root'' then [branch ''A'' (ToggleBlock [RichText ''more''])]
      else if blockID = ''A'' then [leaf ''B'' (ParagraphBlock [RichText ''inner''])]
      else [])"

text \<open>A divider alone under the page \<open>root\<close>.\<close>

definition dividerKids :: "BlockID \<Rightarrow> Block list" where
  "dividerKids blockID = (if blockID = ''root'' then [leaf ''d'' DividerBlock] else [])"

text \<open>A page known by its hyphenated identifier only, with one paragraph.\<close>

definition hyphenatedKids :: "BlockID \<Rightarrow> Block list" where
  "hyphenatedKids blockID =
     (if blockID = ''1ba1af0e-3602-808e-a8dd-fbeb8c0b6071''
      then [leaf ''p'' (ParagraphBlock [RichText ''hi''])]
      else [])"

text \<open>250 numbered items in three pages of 100, 100 and 50.\<close>

definition item :: "nat \<Rightarrow> Block" where
  "item i = leaf (replicate (Suc i) (CHR ''i'')) (NumberedListItemBlock [RichText ''item''])"







text \<open>A summarizer that is down, and one that answers.\<close>

definition noChat :: Chat where
  "noChat apiKey model system content = Inl ''timeout''"

definition okChat :: Chat where
  "okChat apiKey model system content = Inr [''- summary'']"

section \<open>Facts about strings\<close>

lemma pieces_32:
  assumes "length s = 32"
  shows "take 8 s @ take 4 (drop 8 s) @ take 4 (drop 12 s) @ take 4 (drop 16 s) @ drop 20 s = s"
proof -
  have a: "take 12 s = take 8 s @ take 4 (drop 8 s)" using take_add [of 8 4 s] by simp
  have b: "take 16 s = take 12 s @ take 4 (drop 12 s)" using take_add [of 12 4 s] by simp
  have c: "take 20 s = take 16 s @ take 4 (drop 16 s)" using take_add [of 16 4 s] by simp
  have "take 20 s @ drop 20 s = s" by simp
  then show ?thesis unfolding c b a by simp
qed

lemma filter_all: "\<forall>x\<in>set xs. P x \<Longrightarrow> filter P xs = xs"
  by (induction xs) simp_all

lemma replicate_4_more: "replicate (4 + n) c = c # c # c # c # replicate n c"
  by (simp add: eval_nat_numeral)

lemma indent_replicate: "indent d = replicate (4 * d) (CHR '' '')"
  by (induction d) (simp_all add: indent_def replicate_4_more)

section \<open>Facts about \<open>formatPageID\<close>\<close>

lemma formatPageID_hyphenated: "CHR ''-'' \<in> set s \<Longrightarrow> formatPageID s = s"
  by (simp add: formatPageID_def containsHyphen_def)

lemma formatPageID_other: "CHR ''-'' \<notin> set s \<Longrightarrow> length s \<noteq> 32 \<Longrightarrow> formatPageID s = s"
  by (simp add: formatPageID_def containsHyphen_def)

lemma formatPageID_32:
  "CHR ''-'' \<notin> set s \<Longrightarrow> length s = 32 \<Longrightarrow>
   formatPageID s = take 8 s @ ''-'' @ take 4 (drop 8 s) @ ''-'' @ take 4 (drop 12 s) @ ''-''
      @ take 4 (drop 16 s) @ ''-'' @ drop 20 s"
  by (simp add: formatPageID_def containsHyphen_def slice_def)

section \<open>Facts about the history of a run\<close>

lemma fetched_append: "fetched (xs @ ys) = fetched xs @ fetched ys"
  by (simp add: fetched_def)

lemma withChildren_append: "withChildren (xs @ ys) = withChildren xs \<union> withChildren ys"
  by (simp add: withChildren_def)

lemma anyFailed_simps [simp]:
  "anyFailed [] = False"
  "anyFailed (c # cs) = (isl (answer c) \<or> anyFailed cs)"
  "anyFailed (xs @ ys) = (anyFailed xs \<or> anyFailed ys)"
  by (simp_all add: anyFailed_def)

lemma fetchError_simps [simp]:
  "fetchError (Error msg) = (take 22 msg = ''failed to get blocks: '')"
  "fetchError (Panic p) = False"
  by (simp_all add: fetchError_def)

lemma fetchPages_spec:
  "fetchPages fuel client bid cur blocks w = Some (r, w') \<Longrightarrow>
   \<exists>new. w' = w\<lparr>calls := calls w @ new\<rparr> \<and>
     new \<noteq> [] \<and>
     hd new = Call bid \<lparr>StartCursor = cur, PageSize = 100\<rparr>
                (client (length (calls w)) bid \<lparr>StartCursor = cur, PageSize = 100\<rparr>) \<and>
     (\<forall>bs. r = Inr bs \<longrightarrow> bs = blocks @ fetched new) \<and>
     (\<forall>err. r = Inl err \<longrightarrow> fetchError err) \<and>
     (anyFailed new \<longrightarrow> isl r)"
proof (induction fuel arbitrary: cur blocks w)
  case 0
  then show ?case by simp
next
  case (Suc fuel)
  let ?pg = "\<lparr>StartCursor = cur, PageSize = 100\<rparr>"
  let ?r = "client (length (calls w)) bid ?pg"
  let ?w1 = "w\<lparr>calls := calls w @ [Call bid ?pg ?r]\<rparr>"
  show ?case
  proof (cases ?r)
    case (Inl err)
    with Suc.prems show ?thesis
      by (intro exI [of _ "[Call bid ?pg ?r]"]) (auto simp: Let_def fetched_def)
  next
    case (Inr resp)
    show ?thesis
    proof (cases "HasMore resp")
      case False
      with Inr Suc.prems show ?thesis
        by (intro exI [of _ "[Call bid ?pg ?r]"]) (auto simp: Let_def fetched_def)
    next
      case True
      with Inr Suc.prems
      have "fetchPages fuel client bid (NextCursor resp) (blocks @ Results resp) ?w1 = Some (r, w')"
        by (simp add: Let_def)
      from Suc.IH [OF this] obtain new where
        n: "w' = ?w1\<lparr>calls := calls ?w1 @ new\<rparr>"
        "\<forall>bs. r = Inr bs \<longrightarrow> bs = (blocks @ Results resp) @ fetched new"
        "\<forall>err. r = Inl err \<longrightarrow> fetchError err"
        "anyFailed new \<longrightarrow> isl r"
        by blast
      show ?thesis
        using n Inr by (intro exI [of _ "Call bid ?pg ?r # new"]) (simp add: fetched_def)
    qed
  qed
qed

lemma fetch_spec:
  "fetchChildBlocks fuel client bid w = Some (r, w') \<Longrightarrow>
     \<exists>new m. w' = w\<lparr>blockChildren := m, calls := calls w @ new\<rparr> \<and>
       new \<noteq> [] \<and>
       hd new = Call bid \<lparr>StartCursor = [], PageSize = 100\<rparr>
                  (client (length (calls w)) bid \<lparr>StartCursor = [], PageSize = 100\<rparr>) \<and>
       dom (blockChildren w) \<subseteq> dom m \<and>
       dom m \<subseteq> dom (blockChildren w) \<union> withChildren (fetched new) \<and>
       (\<forall>bs. r = Inr bs \<longrightarrow> dom m = dom (blockChildren w) \<union> withChildren (fetched new)) \<and>
       (\<forall>err. r = Inl err \<longrightarrow> fetchError err) \<and>
       (anyFailed new \<longrightarrow> isl r)"
  "fetchEach fuel client blocks w = Some (r', w') \<Longrightarrow>
     \<exists>new m. w' = w\<lparr>blockChildren := m, calls := calls w @ new\<rparr> \<and>
       dom (blockChildren w) \<subseteq> dom m \<and>
       dom m \<subseteq> dom (blockChildren w) \<union> withChildren blocks \<union> withChildren (fetched new) \<and>
       (\<forall>u. r' = Inr u \<longrightarrow> dom m = dom (blockChildren w) \<union> withChildren blocks
            \<union> withChildren (fetched new)) \<and>
       (\<forall>err. r' = Inl err \<longrightarrow> fetchError err) \<and>
       (anyFailed new \<longrightarrow> isl r')"
proof (induction fuel client bid w and fuel client blocks w arbitrary: r w' and r' w'
    rule: fetchChildBlocks_fetchEach.induct)
  case (1 client blockID w)
  then show ?case by simp
next
  case (2 fuel client blockID w)
  note fetchPages.simps [simp del]
  from "2.prems" obtain rp w1 where
    fp: "fetchPages (Suc fuel) client blockID [] [] w = Some (rp, w1)"
    by (auto split: option.splits)
  from fetchPages_spec [OF fp] obtain new1 where
    w1: "w1 = w\<lparr>calls := calls w @ new1\<rparr>" and
    hd: "new1 \<noteq> []" "hd new1 = Call blockID \<lparr>StartCursor = [], PageSize = 100\<rparr>
                (client (length (calls w)) blockID \<lparr>StartCursor = [], PageSize = 100\<rparr>)" and
    bs: "\<forall>bs. rp = Inr bs \<longrightarrow> bs = fetched new1" and
    er: "\<forall>err. rp = Inl err \<longrightarrow> fetchError err"
        "anyFailed new1 \<longrightarrow> isl rp"
    by auto
  show ?case
  proof (cases rp)
    case (Inl err)
    with fp "2.prems" have "r = Inl err" "w' = w1" by auto
    with w1 hd er Inl show ?thesis
      by (intro exI [of _ new1] exI [of _ "blockChildren w"]) auto
  next
    case (Inr blocks)
    with fp "2.prems" obtain re w2 where
      fe: "fetchEach fuel client blocks w1 = Some (re, w2)" and
      w2: "w' = w2" and
      re: "\<forall>bs. r = Inr bs \<longrightarrow> (\<exists>u. re = Inr u)" "\<forall>err. r = Inl err \<longrightarrow> re = Inl err"
        "isl re \<longrightarrow> isl r"
      by (auto split: option.splits sum.splits)
    from "2.IH" [OF fp refl Inr fe] obtain new2 m where
      e: "w2 = w1\<lparr>blockChildren := m, calls := calls w1 @ new2\<rparr>"
        "dom (blockChildren w1) \<subseteq> dom m"
        "dom m \<subseteq> dom (blockChildren w1) \<union> withChildren blocks \<union> withChildren (fetched new2)"
        "\<forall>u. re = Inr u \<longrightarrow> dom m = dom (blockChildren w1) \<union> withChildren blocks
            \<union> withChildren (fetched new2)"
        "\<forall>err. re = Inl err \<longrightarrow> fetchError err"
        "anyFailed new2 \<longrightarrow> isl re"
      by blast
    from bs Inr have b: "blocks = fetched new1" by simp
    from er Inr have ok: "\<not> anyFailed new1" by auto
    show ?thesis
      using e w1 w2 re b hd ok
      by (intro exI [of _ "new1 @ new2"] exI [of _ m])
         (auto simp: fetched_append withChildren_append)
  qed
next
  case (3 fuel client w)
  then show ?case
    by (intro exI [of _ "[]"] exI [of _ "blockChildren w"]) (auto simp: withChildren_def fetched_def)
next
  case (4 fuel client block rest w)
  show ?case
  proof (cases "GetHasChildren block")
    case False
    with "4.prems" have fe: "fetchEach fuel client rest w = Some (r', w')" by simp
    from "4.IH"(3) [OF False fe] obtain new m where
      e: "w' = w\<lparr>blockChildren := m, calls := calls w @ new\<rparr>"
        "dom (blockChildren w) \<subseteq> dom m"
        "dom m \<subseteq> dom (blockChildren w) \<union> withChildren rest \<union> withChildren (fetched new)"
        "\<forall>u. r' = Inr u \<longrightarrow> dom m = dom (blockChildren w) \<union> withChildren rest
            \<union> withChildren (fetched new)"
        "\<forall>err. r' = Inl err \<longrightarrow> fetchError err"
        "anyFailed new \<longrightarrow> isl r'"
      by blast
    show ?thesis
      using e False by (intro exI [of _ new] exI [of _ m]) (simp add: withChildren_def)
  next
    case True
    with "4.prems" obtain rc w1 where
      fc: "fetchChildBlocks fuel client (GetID block) w = Some (rc, w1)"
      by (auto split: option.splits)
    from "4.IH"(1) [OF True fc] obtain new1 m1 where
      e1: "w1 = w\<lparr>blockChildren := m1, calls := calls w @ new1\<rparr>"
        "dom (blockChildren w) \<subseteq> dom m1"
        "dom m1 \<subseteq> dom (blockChildren w) \<union> withChildren (fetched new1)"
        "\<forall>bs. rc = Inr bs \<longrightarrow> dom m1 = dom (blockChildren w) \<union> withChildren (fetched new1)"
        "\<forall>err. rc = Inl err \<longrightarrow> fetchError err"
        "anyFailed new1 \<longrightarrow> isl rc"
      by blast
    show ?thesis
    proof (cases rc)
      case (Inl err)
      with fc True "4.prems" have "r' = Inl err" "w' = w1" by auto
      with e1 Inl show ?thesis
        by (intro exI [of _ new1] exI [of _ m1]) auto
    next
      case (Inr childBlocks)
      let ?w2 = "w1\<lparr>blockChildren := (blockChildren w1)(GetID block \<mapsto> childBlocks)\<rparr>"
      from Inr fc True "4.prems" have fe: "fetchEach fuel client rest ?w2 = Some (r', w')"
        by simp
      from "4.IH"(2) [OF True fc refl Inr fe] obtain new2 m2 where
        e2: "w' = ?w2\<lparr>blockChildren := m2, calls := calls ?w2 @ new2\<rparr>"
          "dom (blockChildren ?w2) \<subseteq> dom m2"
          "dom m2 \<subseteq> dom (blockChildren ?w2) \<union> withChildren rest \<union> withChildren (fetched new2)"
          "\<forall>u. r' = Inr u \<longrightarrow> dom m2 = dom (blockChildren ?w2) \<union> withChildren rest
              \<union> withChildren (fetched new2)"
          "\<forall>err. r' = Inl err \<longrightarrow> fetchError err"
          "anyFailed new2 \<longrightarrow> isl r'"
        by blast
      have id: "GetID block \<in> withChildren (block # rest)"
        using True by (simp add: withChildren_def)
      have wc: "withChildren (block # rest) = insert (GetID block) (withChildren rest)"
        using True by (simp add: withChildren_def)
      show ?thesis
        using e1 e2 Inr
        by (intro exI [of _ "new1 @ new2"] exI [of _ m2])
           (auto simp: fetched_append withChildren_append wc)
    qed
  qed
qed

lemma print_spec:
  "printBlocksRecursive fuel client bid d w = Some (r, w') \<Longrightarrow>
     \<exists>new m out. w' = w\<lparr>blockChildren := m, stdout := stdout w @ out, calls := calls w @ new\<rparr> \<and>
       new \<noteq> [] \<and>
       hd new = Call bid \<lparr>StartCursor = [], PageSize = 100\<rparr>
                  (client (length (calls w)) bid \<lparr>StartCursor = [], PageSize = 100\<rparr>) \<and>
       dom (blockChildren w) \<subseteq> dom m \<and>
       dom m \<subseteq> dom (blockChildren w) \<union> withChildren (fetched new) \<and>
       (\<forall>u. r = Inr u \<longrightarrow> dom m = dom (blockChildren w) \<union> withChildren (fetched new)) \<and>
       (anyFailed new \<longrightarrow> (\<exists>err. r = Inl err \<and> fetchError err))"
  "printEach fuel client blocks d w = Some (r', w') \<Longrightarrow>
     \<exists>new m out. w' = w\<lparr>blockChildren := m, stdout := stdout w @ out, calls := calls w @ new\<rparr> \<and>
       dom (blockChildren w) \<subseteq> dom m \<and>
       dom m \<subseteq> dom (blockChildren w) \<union> withChildren (fetched new) \<and>
       (\<forall>u. r' = Inr u \<longrightarrow> dom m = dom (blockChildren w) \<union> withChildren (fetched new)) \<and>
       (anyFailed new \<longrightarrow> (\<exists>err. r' = Inl err \<and> fetchError err))"
proof (induction fuel client bid d w and fuel client blocks d w arbitrary: r w' and r' w'
    rule: printBlocksRecursive_printEach.induct)
  case (1 client blockID depth w)
  then show ?case by simp
next
  case (2 fuel client blockID depth w)
  note fetchChildBlocks.simps [simp del]
  from "2.prems" obtain rf w1 where
    fc: "fetchChildBlocks (Suc fuel) client blockID w = Some (rf, w1)"
    by (auto split: option.splits)
  from fetch_spec(1) [OF fc] obtain new1 m1 where
    e1: "w1 = w\<lparr>blockChildren := m1, calls := calls w @ new1\<rparr>"
      "new1 \<noteq> []"
      "hd new1 = Call blockID \<lparr>StartCursor = [], PageSize = 100\<rparr>
                  (client (length (calls w)) blockID \<lparr>StartCursor = [], PageSize = 100\<rparr>)"
      "dom (blockChildren w) \<subseteq> dom m1"
      "dom m1 \<subseteq> dom (blockChildren w) \<union> withChildren (fetched new1)"
      "\<forall>bs. rf = Inr bs \<longrightarrow> dom m1 = dom (blockChildren w) \<union> withChildren (fetched new1)"
      "\<forall>err. rf = Inl err \<longrightarrow> fetchError err"
      "anyFailed new1 \<longrightarrow> isl rf"
    by blast
  show ?case
  proof (cases rf)
    case (Inl err)
    with fc "2.prems" have "r = Inl err" "w' = w1" by auto
    with e1 Inl show ?thesis
      by (intro exI [of _ new1] exI [of _ m1] exI [of _ "[]"]) auto
  next
    case (Inr blocks)
    with fc "2.prems" have pe: "printEach fuel client blocks depth w1 = Some (r, w')"
      by simp
    from "2.IH" [OF fc refl Inr pe] obtain new2 m2 out where
      e2: "w' = w1\<lparr>blockChildren := m2, stdout := stdout w1 @ out, calls := calls w1 @ new2\<rparr>"
        "dom (blockChildren w1) \<subseteq> dom m2"
        "dom m2 \<subseteq> dom (blockChildren w1) \<union> withChildren (fetched new2)"
        "\<forall>u. r = Inr u \<longrightarrow> dom m2 = dom (blockChildren w1) \<union> withChildren (fetched new2)"
        "anyFailed new2 \<longrightarrow> (\<exists>err. r = Inl err \<and> fetchError err)"
      by blast
    show ?thesis
      using e1 e2 Inr
      by (intro exI [of _ "new1 @ new2"] exI [of _ m2] exI [of _ out])
         (auto simp: fetched_append withChildren_append)
  qed
next
  case (3 fuel client depth w)
  then show ?case
    by (intro exI [of _ "[]"] exI [of _ "blockChildren w"]) (auto simp: withChildren_def fetched_def)
next
  case (4 fuel client block rest depth w)
  note printBlock.simps [simp del]
  show ?case
  proof (cases "printBlock block depth")
    case (Inl err)
    with "4.prems" have "r' = Inl err" "w' = w" by auto
    then show ?thesis
      by (intro exI [of _ "[]"] exI [of _ "blockChildren w"]) (auto simp: withChildren_def fetched_def)
  next
    case (Inr out)
    let ?w1 = "w\<lparr>stdout := stdout w @ out\<rparr>"
    show ?thesis
    proof (cases "blockChildren w (GetID block) \<noteq> None")
      case False
      with Inr "4.prems" have pe: "printEach fuel client rest depth ?w1 = Some (r', w')"
        by simp
      from "4.IH"(3) [OF Inr False pe] obtain new m out' where
        e: "w' = ?w1\<lparr>blockChildren := m, stdout := stdout ?w1 @ out', calls := calls ?w1 @ new\<rparr>"
          "dom (blockChildren ?w1) \<subseteq> dom m"
          "dom m \<subseteq> dom (blockChildren ?w1) \<union> withChildren (fetched new)"
          "\<forall>u. r' = Inr u \<longrightarrow> dom m = dom (blockChildren ?w1) \<union> withChildren (fetched new)"
          "anyFailed new \<longrightarrow> (\<exists>err. r' = Inl err \<and> fetchError err)"
        by blast
      show ?thesis
        using e by (intro exI [of _ new] exI [of _ m] exI [of _ "out @ out'"]) simp
    next
      case True
      with Inr "4.prems" obtain rp w2 where
        pr: "printBlocksRecursive fuel client (GetID block) (depth + 1) ?w1 = Some (rp, w2)"
        by (auto split: option.splits)
      from "4.IH"(1) [OF Inr True pr] obtain new1 m1 out1 where
        e1: "w2 = ?w1\<lparr>blockChildren := m1, stdout := stdout ?w1 @ out1, calls := calls ?w1 @ new1\<rparr>"
          "dom (blockChildren ?w1) \<subseteq> dom m1"
          "dom m1 \<subseteq> dom (blockChildren ?w1) \<union> withChildren (fetched new1)"
          "\<forall>u. rp = Inr u \<longrightarrow> dom m1 = dom (blockChildren ?w1) \<union> withChildren (fetched new1)"
          "anyFailed new1 \<longrightarrow> (\<exists>err. rp = Inl err \<and> fetchError err)"
        by blast
      show ?thesis
      proof (cases rp)
        case (Inl err)
        with pr True Inr "4.prems" have "r' = Inl err" "w' = w2" by auto
        with e1 Inl show ?thesis
          by (intro exI [of _ new1] exI [of _ m1] exI [of _ "out @ out1"]) auto
      next
        case R: (Inr u)
        with pr True Inr "4.prems" have pe: "printEach fuel client rest depth w2 = Some (r', w')"
          by auto
        from "4.IH"(2) [OF Inr True pr refl R pe] obtain new2 m2 out2 where
          e2: "w' = w2\<lparr>blockChildren := m2, stdout := stdout w2 @ out2, calls := calls w2 @ new2\<rparr>"
            "dom (blockChildren w2) \<subseteq> dom m2"
            "dom m2 \<subseteq> dom (blockChildren w2) \<union> withChildren (fetched new2)"
            "\<forall>u. r' = Inr u \<longrightarrow> dom m2 = dom (blockChildren w2) \<union> withChildren (fetched new2)"
            "anyFailed new2 \<longrightarrow> (\<exists>err. r' = Inl err \<and> fetchError err)"
          by blast
        show ?thesis
          using e1 e2 R
          by (intro exI [of _ "new1 @ new2"] exI [of _ m2] exI [of _ "out @ out1 @ out2"])
             (auto simp: fetched_append withChildren_append)
      qed
    qed
  qed
qed

lemma collect_spec:
  "collectContent fuel client bid w = Some (r, w') \<Longrightarrow>
     \<exists>new m out. w' = w\<lparr>blockChildren := m, contentBuilder := contentBuilder w @ out,
                          calls := calls w @ new\<rparr> \<and>
       new \<noteq> [] \<and>
       hd new = Call bid \<lparr>StartCursor = [], PageSize = 100\<rparr>
                  (client (length (calls w)) bid \<lparr>StartCursor = [], PageSize = 100\<rparr>) \<and>
       dom (blockChildren w) \<subseteq> dom m \<and>
       dom m \<subseteq> dom (blockChildren w) \<union> withChildren (fetched new) \<and>
       (\<forall>u. r = Inr u \<longrightarrow> dom m = dom (blockChildren w) \<union> withChildren (fetched new)) \<and>
       (\<forall>err. r = Inl err \<longrightarrow> fetchError err) \<and>
       (anyFailed new \<longrightarrow> isl r)"
  "collectEach fuel client blocks w = Some (r', w') \<Longrightarrow>
     \<exists>new m out. w' = w\<lparr>blockChildren := m, contentBuilder := contentBuilder w @ out,
                          calls := calls w @ new\<rparr> \<and>
       dom (blockChildren w) \<subseteq> dom m \<and>
       dom m \<subseteq> dom (blockChildren w) \<union> withChildren (fetched new) \<and>
       (\<forall>u. r' = Inr u \<longrightarrow> dom m = dom (blockChildren w) \<union> withChildren (fetched new)) \<and>
       (\<forall>err. r' = Inl err \<longrightarrow> fetchError err) \<and>
       (anyFailed new \<longrightarrow> isl r')"
proof (induction fuel client bid w and fuel client blocks w arbitrary: r w' and r' w'
    rule: collectContent_collectEach.induct)
  case (1 client blockID w)
  then show ?case by simp
next
  case (2 fuel client blockID w)
  note fetchChildBlocks.simps [simp del]
  from "2.prems" obtain rf w1 where
    fc: "fetchChildBlocks (Suc fuel) client blockID w = Some (rf, w1)"
    by (auto split: option.splits)
  from fetch_spec(1) [OF fc] obtain new1 m1 where
    e1: "w1 = w\<lparr>blockChildren := m1, calls := calls w @ new1\<rparr>"
      "new1 \<noteq> []"
      "hd new1 = Call blockID \<lparr>StartCursor = [], PageSize = 100\<rparr>
                  (client (length (calls w)) blockID \<lparr>StartCursor = [], PageSize = 100\<rparr>)"
      "dom (blockChildren w) \<subseteq> dom m1"
      "dom m1 \<subseteq> dom (blockChildren w) \<union> withChildren (fetched new1)"
      "\<forall>bs. rf = Inr bs \<longrightarrow> dom m1 = dom (blockChildren w) \<union> withChildren (fetched new1)"
      "\<forall>err. rf = Inl err \<longrightarrow> fetchError err"
      "anyFailed new1 \<longrightarrow> isl rf"
    by blast
  show ?case
  proof (cases rf)
    case (Inl err)
    with fc "2.prems" have "r = Inl err" "w' = w1" by auto
    with e1 Inl show ?thesis
      by (intro exI [of _ new1] exI [of _ m1] exI [of _ "[]"]) auto
  next
    case (Inr blocks)
    with fc "2.prems" have pe: "collectEach fuel client blocks w1 = Some (r, w')"
      by simp
    from "2.IH" [OF fc refl Inr pe] obtain new2 m2 out where
      e2: "w' = w1\<lparr>blockChildren := m2, contentBuilder := contentBuilder w1 @ out,
                    calls := calls w1 @ new2\<rparr>"
        "dom (blockChildren w1) \<subseteq> dom m2"
        "dom m2 \<subseteq> dom (blockChildren w1) \<union> withChildren (fetched new2)"
        "\<forall>u. r = Inr u \<longrightarrow> dom m2 = dom (blockChildren w1) \<union> withChildren (fetched new2)"
        "\<forall>err. r = Inl err \<longrightarrow> fetchError err"
        "anyFailed new2 \<longrightarrow> isl r"
      by blast
    show ?thesis
      using e1 e2 Inr
      by (intro exI [of _ "new1 @ new2"] exI [of _ m2] exI [of _ out])
         (auto simp: fetched_append withChildren_append)
  qed
next
  case (3 fuel client w)
  then show ?case
    by (intro exI [of _ "[]"] exI [of _ "blockChildren w"]) (auto simp: withChildren_def fetched_def)
next
  case (4 fuel client block rest w)
  note collectText.simps [simp del]
  let ?out = "collectText block @ nl @ nl"
  let ?w1 = "w\<lparr>contentBuilder := contentBuilder w @ ?out\<rparr>"
  show ?case
  proof (cases "blockChildren w (GetID block) \<noteq> None")
    case False
    with "4.prems" have pe: "collectEach fuel client rest ?w1 = Some (r', w')"
      by simp
    from "4.IH"(3) [OF False pe] obtain new m out' where
      e: "w' = ?w1\<lparr>blockChildren := m, contentBuilder := contentBuilder ?w1 @ out',
                    calls := calls ?w1 @ new\<rparr>"
        "dom (blockChildren ?w1) \<subseteq> dom m"
        "dom m \<subseteq> dom (blockChildren ?w1) \<union> withChildren (fetched new)"
        "\<forall>u. r' = Inr u \<longrightarrow> dom m = dom (blockChildren ?w1) \<union> withChildren (fetched new)"
        "\<forall>err. r' = Inl err \<longrightarrow> fetchError err"
        "anyFailed new \<longrightarrow> isl r'"
      by blast
    show ?thesis
      using e by (intro exI [of _ new] exI [of _ m] exI [of _ "?out @ out'"]) simp
  next
    case True
    with "4.prems" obtain rp w2 where
      pr: "collectContent fuel client (GetID block) ?w1 = Some (rp, w2)"
      by (auto split: option.splits)
    from "4.IH"(1) [OF True pr] obtain new1 m1 out1 where
      e1: "w2 = ?w1\<lparr>blockChildren := m1, contentBuilder := contentBuilder ?w1 @ out1,
                     calls := calls ?w1 @ new1\<rparr>"
        "dom (blockChildren ?w1) \<subseteq> dom m1"
        "dom m1 \<subseteq> dom (blockChildren ?w1) \<union> withChildren (fetched new1)"
        "\<forall>u. rp = Inr u \<longrightarrow> dom m1 = dom (blockChildren ?w1) \<union> withChildren (fetched new1)"
        "\<forall>err. rp = Inl err \<longrightarrow> fetchError err"
        "anyFailed new1 \<longrightarrow> isl rp"
      by blast
    show ?thesis
    proof (cases rp)
      case (Inl err)
      with pr True "4.prems" have "r' = Inl err" "w' = w2" by auto
      with e1 Inl show ?thesis
        by (intro exI [of _ new1] exI [of _ m1] exI [of _ "?out @ out1"]) auto
    next
      case R: (Inr u)
      with pr True "4.prems" have pe: "collectEach fuel client rest w2 = Some (r', w')"
        by auto
      from "4.IH"(2) [OF True pr refl R pe] obtain new2 m2 out2 where
        e2: "w' = w2\<lparr>blockChildren := m2, contentBuilder := contentBuilder w2 @ out2,
                      calls := calls w2 @ new2\<rparr>"
          "dom (blockChildren w2) \<subseteq> dom m2"
          "dom m2 \<subseteq> dom (blockChildren w2) \<union> withChildren (fetched new2)"
          "\<forall>u. r' = Inr u \<longrightarrow> dom m2 = dom (blockChildren w2) \<union> withChildren (fetched new2)"
          "\<forall>err. r' = Inl err \<longrightarrow> fetchError err"
          "anyFailed new2 \<longrightarrow> isl r'"
        by blast
      show ?thesis
        using e1 e2 R
        by (intro exI [of _ "new1 @ new2"] exI [of _ m2] exI [of _ "?out @ out1 @ out2"])
           (auto simp: fetched_append withChildren_append)
    qed
  qed
qed

section \<open>Facts about \<open>main\<close>\<close>

lemma summarize_frame:
  "summarizeContent env chat content w = (r, w') \<Longrightarrow>
   \<exists>cs. w' = w\<lparr>chatCalls := chatCalls w @ cs\<rparr> \<and>
     (Getenv env ''OPENAI_API_KEY'' = [] \<longrightarrow> cs = [] \<and> r = Inl (Error ''OPENAI_API_KEY is not set''))"
  by (cases "Getenv env ''OPENAI_API_KEY'' = []")
     (auto simp: summarizeContent_def Let_def split: sum.splits list.splits)

lemma main_cases:
  assumes "main args env NewClient chat fuel = Some (ex, w)"
    and "length args = 2" and "Getenv env ''NOTION_API_TOKEN'' \<noteq> []"
  shows "(\<exists>err w1.
            printBlocksRecursive fuel (NewClient (Getenv env ''NOTION_API_TOKEN''))
              (formatPageID (args ! 1)) 0 start = Some (Inl err, w1) \<and>
            (ex, w) = fatal ''Error fetching blocks: '' err w1) \<or>
         (\<exists>u w1 err w2.
            printBlocksRecursive fuel (NewClient (Getenv env ''NOTION_API_TOKEN''))
              (formatPageID (args ! 1)) 0 start = Some (Inr u, w1) \<and>
            collectContent fuel (NewClient (Getenv env ''NOTION_API_TOKEN''))
              (formatPageID (args ! 1)) w1 = Some (Inl err, w2) \<and>
            (ex, w) = fatal ''Error collecting content: '' err w2) \<or>
         (\<exists>u w1 u' w2 out log cs.
            printBlocksRecursive fuel (NewClient (Getenv env ''NOTION_API_TOKEN''))
              (formatPageID (args ! 1)) 0 start = Some (Inr u, w1) \<and>
            collectContent fuel (NewClient (Getenv env ''NOTION_API_TOKEN''))
              (formatPageID (args ! 1)) w1 = Some (Inr u', w2) \<and>
            ex \<noteq> Exit 1 \<and>
            w = w2\<lparr>stdout := stdout w2 @ summaryHeader @ nl @ out, stderr := stderr w2 @ log,
                    chatCalls := chatCalls w2 @ cs\<rparr> \<and>
            (Getenv env ''OPENAI_API_KEY'' = [] \<longrightarrow>
               ex = Exit 0 \<and> out = [] \<and> cs = [] \<and>
               log = ''Error generating summary: OPENAI_API_KEY is not set'' @ nl))"
proof -
  let ?client = "NewClient (Getenv env ''NOTION_API_TOKEN'')"
  let ?page = "formatPageID (args ! 1)"
  from assms obtain r1 w1 where
    p: "printBlocksRecursive fuel ?client ?page 0 start = Some (r1, w1)"
    by (auto simp: main_def Let_def split: option.splits)
  show ?thesis
  proof (cases r1)
    case (Inl err)
    with p assms show ?thesis by (simp add: main_def Let_def)
  next
    case (Inr u)
    with p assms obtain r2 w2 where
      c: "collectContent fuel ?client ?page w1 = Some (r2, w2)"
      by (auto simp: main_def Let_def split: option.splits)
    show ?thesis
    proof (cases r2)
      case (Inl err)
      with p c Inr assms show ?thesis by (simp add: main_def Let_def)
    next
      case R: (Inr u')
      let ?w3 = "w2\<lparr>stdout := stdout w2 @ summaryHeader @ nl\<rparr>"
      obtain r3 w4 where s: "summarizeContent env chat (contentBuilder w2) ?w3 = (r3, w4)"
        by (cases "summarizeContent env chat (contentBuilder w2) ?w3") auto
      from summarize_frame [OF s] obtain cs where
        f: "w4 = ?w3\<lparr>chatCalls := chatCalls ?w3 @ cs\<rparr>"
          "Getenv env ''OPENAI_API_KEY'' = [] \<longrightarrow> cs = [] \<and> r3 = Inl (Error ''OPENAI_API_KEY is not set'')"
        by blast
      from p c Inr R s assms have m:
        "(ex, w) = (case r3 of
            Inl (Error e) \<Rightarrow> (Exit 0, w4\<lparr>stderr := stderr w4 @ ''Error generating summary: '' @ e @ nl\<rparr>)
          | Inl (Panic p) \<Rightarrow> (Crash p, w4)
          | Inr summary \<Rightarrow> (Exit 0, w4\<lparr>stdout := stdout w4 @ summary @ nl\<rparr>))"
        by (simp add: main_def Let_def split: sum.splits error.splits)
      have "\<exists>out log. ex \<noteq> Exit 1 \<and>
            w = w2\<lparr>stdout := stdout w2 @ summaryHeader @ nl @ out, stderr := stderr w2 @ log,
                    chatCalls := chatCalls w2 @ cs\<rparr> \<and>
            (Getenv env ''OPENAI_API_KEY'' = [] \<longrightarrow>
               ex = Exit 0 \<and> out = [] \<and> cs = [] \<and>
               log = ''Error generating summary: OPENAI_API_KEY is not set'' @ nl)"
      proof (cases r3)
        case (Inl e3)
        show ?thesis
        proof (cases e3)
          case (Error e)
          with Inl m f show ?thesis
            by (intro exI [of _ "[]"] exI [of _ "''Error generating summary: '' @ e @ nl"]) auto
        next
          case (Panic x)
          with Inl m f show ?thesis
            by (intro exI [of _ "[]"] exI [of _ "[]"]) auto
        qed
      next
        case (Inr summary)
        with m f show ?thesis
          by (intro exI [of _ "summary @ nl"] exI [of _ "[]"]) auto
      qed
      with p c Inr R show ?thesis by blast
    qed
  qed
qed

lemma fetchError_message:
  "fetchError err \<Longrightarrow> \<exists>e. err = Error (''failed to get blocks: '' @ e)"
proof (cases err)
  case (Error msg)
  assume "fetchError err"
  with Error have "take 22 msg = ''failed to get blocks: ''" by simp
  then have "msg = ''failed to get blocks: '' @ drop 22 msg"
    by (metis append_take_drop_id)
  with Error show ?thesis by blast
next
  case (Panic p)
  assume "fetchError err"
  with Panic show ?thesis by simp
qed

lemmas example_defs = numeral_2_eq_2 serving_def nestedKids_def dividerKids_def branch_def
  leaf_def lastPage_def start_def down_def flaky_def Let_def

section \<open>Facts about the rendering of a block\<close>

lemma takeWhile_replicate:
  "takeWhile (\<lambda>c. c = x) (replicate n x @ rest) = replicate n x @ takeWhile (\<lambda>c. c = x) rest"
  by (induction n) simp_all

lemma leadingSpaces_indent:
  "leadingSpaces (replicate n (CHR '' '') @ rest) = n + leadingSpaces rest"
  by (simp add: leadingSpaces_def takeWhile_replicate)

lemma leadingSpaces_marker [simp]: "c \<noteq> CHR '' '' \<Longrightarrow> leadingSpaces (c # rest) = 0"
  by (simp add: leadingSpaces_def)

lemma leadingSpaces_text: "leadingSpaces (text @ CHR 0x0A # rest) = leadingSpaces text"
  by (simp add: leadingSpaces_def takeWhile_tail)

lemma SplitLines_nonempty: "\<exists>l ls. SplitLines s = l # ls"
  by (induction s) (auto split: list.splits)

section \<open>Facts about the pagination loop\<close>




lemma length_exchanges [simp]: "length (exchanges blockID cursor pages) = length pages"
  by (induction pages arbitrary: cursor) simp_all

lemma item_leaf [simp]: "\<not> GetHasChildren (item i)"
  by (simp add: item_def leaf_def)





section \<open>Facts about walks over a served document\<close>

lemma withChildren_Cons:
  "withChildren (b # bs) = (if GetHasChildren b then insert (GetID b) (withChildren bs) else withChildren bs)"
  by (simp add: withChildren_def)

lemma withChildren_docParents: "withChildren (kids p) \<subseteq> docParents kids"
  by (auto simp: withChildren_def docParents_def)

lemma fetchPages_serving:
  "fetchPages (Suc fuel) (serving kids) blockID [] [] w
     = Some (Inr (kids blockID),
         w\<lparr>calls := calls w @ [Call blockID \<lparr>StartCursor = [], PageSize = 100\<rparr>
                   (Inr \<lparr>Results = kids blockID, HasMore = False, NextCursor = []\<rparr>)]\<rparr>)"
  by (simp add: serving_def Let_def)

lemma fetchEach_serving:
  "nestingWithin kids n bs \<Longrightarrow> n \<le> fuel \<Longrightarrow>
   \<exists>m new. fetchEach fuel (serving kids) bs w
       = Some (Inr (), w\<lparr>blockChildren := m, calls := calls w @ new\<rparr>) \<and>
     dom (blockChildren w) \<union> withChildren bs \<subseteq> dom m \<and>
     dom m \<subseteq> dom (blockChildren w) \<union> withChildren bs \<union> docParents kids"
proof (induction kids n bs arbitrary: fuel w rule: nestingWithin.induct)
  case (1 kids n)
  show ?case
    by (intro exI [of _ "blockChildren w"] exI [of _ "[]"]) (simp add: withChildren_def)
next
  case (2 kids n b bs)
  from "2.prems" have rest: "nestingWithin kids n bs" by simp
  show ?case
  proof (cases "GetHasChildren b")
    case False
    from "2.IH"(2) [OF rest "2.prems"(2), of w] obtain m new where
      "fetchEach fuel (serving kids) bs w
         = Some (Inr (), w\<lparr>blockChildren := m, calls := calls w @ new\<rparr>)"
      "dom (blockChildren w) \<union> withChildren bs \<subseteq> dom m"
      "dom m \<subseteq> dom (blockChildren w) \<union> withChildren bs \<union> docParents kids"
      by blast
    with False show ?thesis
      by (intro exI [of _ m] exI [of _ new]) (simp add: withChildren_Cons)
  next
    case True
    with "2.prems" obtain k where n: "n = Suc k" and
      inner: "nestingWithin kids k (kids (GetID b))"
      by (cases n) auto
    from n "2.prems"(2) obtain f where fuel: "fuel = Suc f" and kf: "k \<le> f"
      by (cases fuel) auto
    let ?c = "Call (GetID b) \<lparr>StartCursor = [], PageSize = 100\<rparr>
                (Inr \<lparr>Results = kids (GetID b), HasMore = False, NextCursor = []\<rparr>)"
    let ?w1 = "w\<lparr>calls := calls w @ [?c]\<rparr>"
    from "2.IH"(1) [OF True n inner kf, of ?w1] obtain m1 new1 where
      e1: "fetchEach f (serving kids) (kids (GetID b)) ?w1
         = Some (Inr (), ?w1\<lparr>blockChildren := m1, calls := calls ?w1 @ new1\<rparr>)"
        "dom (blockChildren ?w1) \<union> withChildren (kids (GetID b)) \<subseteq> dom m1"
        "dom m1 \<subseteq> dom (blockChildren ?w1) \<union> withChildren (kids (GetID b)) \<union> docParents kids"
      by blast
    let ?w2 = "w\<lparr>calls := calls w @ ?c # new1,
                  blockChildren := m1(GetID b \<mapsto> kids (GetID b))\<rparr>"
    have child: "fetchChildBlocks fuel (serving kids) (GetID b) w
        = Some (Inr (kids (GetID b)), w\<lparr>blockChildren := m1, calls := calls w @ ?c # new1\<rparr>)"
      unfolding fuel using e1(1)
      by (simp add: fetchPages_serving del: fetchPages.simps)
    from "2.IH"(2) [OF rest "2.prems"(2), of ?w2] obtain m2 new2 where
      e2: "fetchEach fuel (serving kids) bs ?w2
         = Some (Inr (), ?w2\<lparr>blockChildren := m2, calls := calls ?w2 @ new2\<rparr>)"
        "dom (blockChildren ?w2) \<union> withChildren bs \<subseteq> dom m2"
        "dom m2 \<subseteq> dom (blockChildren ?w2) \<union> withChildren bs \<union> docParents kids"
      by blast
    have step: "fetchEach fuel (serving kids) (b # bs) w
        = Some (Inr (), w\<lparr>blockChildren := m2, calls := calls w @ (?c # new1 @ new2)\<rparr>)"
      using True child e2(1) by simp
    have sub: "withChildren (kids (GetID b)) \<subseteq> docParents kids"
      by (rule withChildren_docParents)
    have lower: "dom (blockChildren w) \<union> withChildren (b # bs) \<subseteq> dom m2"
      using e1(2) e2(2) True by (simp add: withChildren_Cons) blast
    have upper: "dom m2 \<subseteq> dom (blockChildren w) \<union> withChildren (b # bs) \<union> docParents kids"
      using e1(3) e2(3) sub True by (simp add: withChildren_Cons) blast
    from step lower upper show ?thesis
      by (intro exI [of _ m2] exI [of _ "?c # new1 @ new2"]) simp
  qed
qed

lemma fetchChildBlocks_serving:
  assumes "nestingWithin kids n (kids blockID)" and "n < fuel"
  shows "\<exists>m new. fetchChildBlocks fuel (serving kids) blockID w
       = Some (Inr (kids blockID), w\<lparr>blockChildren := m, calls := calls w @ new\<rparr>) \<and>
     dom (blockChildren w) \<union> withChildren (kids blockID) \<subseteq> dom m \<and>
     dom m \<subseteq> dom (blockChildren w) \<union> docParents kids"
proof -
  from assms(2) obtain f where fuel: "fuel = Suc f" and nf: "n \<le> f"
    by (cases fuel) auto
  let ?c = "Call blockID \<lparr>StartCursor = [], PageSize = 100\<rparr>
              (Inr \<lparr>Results = kids blockID, HasMore = False, NextCursor = []\<rparr>)"
  let ?w1 = "w\<lparr>calls := calls w @ [?c]\<rparr>"
  from fetchEach_serving [OF assms(1) nf, of ?w1] obtain m new where
    e: "fetchEach f (serving kids) (kids blockID) ?w1
         = Some (Inr (), ?w1\<lparr>blockChildren := m, calls := calls ?w1 @ new\<rparr>)"
      "dom (blockChildren ?w1) \<union> withChildren (kids blockID) \<subseteq> dom m"
      "dom m \<subseteq> dom (blockChildren ?w1) \<union> withChildren (kids blockID) \<union> docParents kids"
    by blast
  have run: "fetchChildBlocks fuel (serving kids) blockID w
       = Some (Inr (kids blockID), w\<lparr>blockChildren := m, calls := calls w @ ?c # new\<rparr>)"
    unfolding fuel using e(1) by (simp add: fetchPages_serving del: fetchPages.simps)
  have upper: "dom m \<subseteq> dom (blockChildren w) \<union> docParents kids"
    using e(3) withChildren_docParents [of kids blockID] by auto
  from run e(2) upper show ?thesis
    by (intro exI [of _ m] exI [of _ "?c # new"]) simp
qed

lemma key_iff_flag:
  assumes "consistentFlags kids" and "b \<in> set (kids p)"
    and "withChildren [b] \<subseteq> dom (blockChildren w)"
    and "dom (blockChildren w) \<subseteq> docParents kids"
  shows "blockChildren w (GetID b) \<noteq> None \<longleftrightarrow> GetHasChildren b"
proof
  assume "blockChildren w (GetID b) \<noteq> None"
  then have "GetID b \<in> docParents kids" using assms(4) by auto
  then obtain p' b' where "b' \<in> set (kids p')" "GetID b' = GetID b" "GetHasChildren b'"
    by (auto simp: docParents_def)
  with assms(1,2) show "GetHasChildren b"
    unfolding consistentFlags_def by blast
next
  assume "GetHasChildren b"
  with assms(3) show "blockChildren w (GetID b) \<noteq> None"
    by (auto simp: withChildren_def)
qed

lemma collectEach_serving:
  "nestingWithin kids n bs \<Longrightarrow> n \<le> fuel \<Longrightarrow> consistentFlags kids \<Longrightarrow>
   set bs \<subseteq> set (kids p) \<Longrightarrow> withChildren bs \<subseteq> dom (blockChildren w) \<Longrightarrow>
   dom (blockChildren w) \<subseteq> docParents kids \<Longrightarrow>
   \<exists>m new. collectEach fuel (serving kids) bs w
       = Some (Inr (), w\<lparr>blockChildren := m,
                 contentBuilder := contentBuilder w @ depthFirstText kids n bs,
                 calls := calls w @ new\<rparr>) \<and>
     dom (blockChildren w) \<subseteq> dom m \<and> dom m \<subseteq> docParents kids"
proof (induction kids n bs arbitrary: fuel w p rule: nestingWithin.induct)
  case (1 kids n)
  show ?case
    using "1.prems" by (intro exI [of _ "blockChildren w"] exI [of _ "[]"]) simp
next
  case (2 kids n b bs)
  note collectText.simps [simp del]
  from "2.prems" have rest: "nestingWithin kids n bs" and sub: "set bs \<subseteq> set (kids p)"
    and b: "b \<in> set (kids p)"
    by simp_all
  have "withChildren (b # bs) = withChildren [b] \<union> withChildren bs"
    by (simp add: withChildren_def)
  with "2.prems"(5) have keys: "withChildren bs \<subseteq> dom (blockChildren w)"
    and kb: "withChildren [b] \<subseteq> dom (blockChildren w)"
    by simp_all
  note cons = "2.prems"(3) and up = "2.prems"(6)
  from key_iff_flag [OF cons b kb up]
  have key: "blockChildren w (GetID b) \<noteq> None \<longleftrightarrow> GetHasChildren b" .
  let ?w1 = "w\<lparr>contentBuilder := contentBuilder w @ collectText b @ nl @ nl\<rparr>"
  show ?case
  proof (cases "GetHasChildren b")
    case False
    from "2.IH"(2) [OF rest "2.prems"(2) cons sub, of ?w1] keys up obtain m new where
      e: "collectEach fuel (serving kids) bs ?w1
         = Some (Inr (), ?w1\<lparr>blockChildren := m,
                 contentBuilder := contentBuilder ?w1 @ depthFirstText kids n bs,
                 calls := calls ?w1 @ new\<rparr>)"
        "dom (blockChildren ?w1) \<subseteq> dom m" "dom m \<subseteq> docParents kids"
      by auto
    from False key have none: "blockChildren w (GetID b) = None" by simp
    have "collectEach fuel (serving kids) (b # bs) w
         = Some (Inr (), w\<lparr>blockChildren := m,
                 contentBuilder := contentBuilder w @ depthFirstText kids n (b # bs),
                 calls := calls w @ new\<rparr>)"
      using e(1) none False by simp
    with e(2,3) show ?thesis
      by (intro exI [of _ m] exI [of _ new]) simp
  next
    case True
    with "2.prems" obtain k where n: "n = Suc k" and
      inner: "nestingWithin kids k (kids (GetID b))"
      by (cases n) auto
    from n "2.prems"(2) obtain f where fuel: "fuel = Suc f" and kf: "k \<le> f"
      by (cases fuel) auto
    from kf have klt: "k < Suc f" by simp
    from fetchChildBlocks_serving [OF inner klt, of ?w1] obtain m1 new1 where
      f1: "fetchChildBlocks (Suc f) (serving kids) (GetID b) ?w1
         = Some (Inr (kids (GetID b)), ?w1\<lparr>blockChildren := m1, calls := calls ?w1 @ new1\<rparr>)"
        "dom (blockChildren ?w1) \<union> withChildren (kids (GetID b)) \<subseteq> dom m1"
        "dom m1 \<subseteq> dom (blockChildren ?w1) \<union> docParents kids"
      by blast
    let ?w2 = "?w1\<lparr>blockChildren := m1, calls := calls ?w1 @ new1\<rparr>"
    have k2: "withChildren (kids (GetID b)) \<subseteq> dom (blockChildren ?w2)"
      and u2: "dom (blockChildren ?w2) \<subseteq> docParents kids"
      using f1(2,3) up by (simp_all, blast)
    from "2.IH"(1) [OF True n inner kf cons subset_refl k2 u2] obtain m2 new2 where
      e2: "collectEach f (serving kids) (kids (GetID b)) ?w2
         = Some (Inr (), ?w2\<lparr>blockChildren := m2,
                 contentBuilder := contentBuilder ?w2 @ depthFirstText kids k (kids (GetID b)),
                 calls := calls ?w2 @ new2\<rparr>)"
        "dom (blockChildren ?w2) \<subseteq> dom m2" "dom m2 \<subseteq> docParents kids"
      by blast
    let ?w3 = "?w2\<lparr>blockChildren := m2,
                 contentBuilder := contentBuilder ?w2 @ depthFirstText kids k (kids (GetID b)),
                 calls := calls ?w2 @ new2\<rparr>"
    have inner_walk: "collectContent fuel (serving kids) (GetID b) ?w1 = Some (Inr (), ?w3)"
      unfolding fuel using f1(1) e2(1)
      by (simp del: fetchChildBlocks.simps)
    have k3: "withChildren bs \<subseteq> dom (blockChildren ?w3)"
      using keys f1(2) e2(2) by simp blast
    have u3: "dom (blockChildren ?w3) \<subseteq> docParents kids"
      using e2(3) by simp
    from "2.IH"(2) [OF rest "2.prems"(2) cons sub k3 u3] obtain m3 new3 where
      e3: "collectEach fuel (serving kids) bs ?w3
         = Some (Inr (), ?w3\<lparr>blockChildren := m3,
                 contentBuilder := contentBuilder ?w3 @ depthFirstText kids n bs,
                 calls := calls ?w3 @ new3\<rparr>)"
        "dom (blockChildren ?w3) \<subseteq> dom m3" "dom m3 \<subseteq> docParents kids"
      by blast
    from True key have some: "blockChildren w (GetID b) \<noteq> None" by simp
    have "collectEach fuel (serving kids) (b # bs) w
         = Some (Inr (), ?w3\<lparr>blockChildren := m3,
                 contentBuilder := contentBuilder ?w3 @ depthFirstText kids n bs,
                 calls := calls ?w3 @ new3\<rparr>)"
      using some inner_walk e3(1) by (simp del: collectContent.simps)
    moreover have "dom (blockChildren w) \<subseteq> dom m3"
      using f1(2) e2(2) e3(2) by simp blast
    ultimately show ?thesis
      using e3(3) True n
      by (intro exI [of _ m3] exI [of _ "new1 @ new2 @ new3"]) simp
  qed
qed

lemma collectContent_serving:
  assumes "nestingWithin kids n (kids blockID)" and "n < fuel" and "consistentFlags kids"
    and "dom (blockChildren w) \<subseteq> docParents kids"
  shows "\<exists>m new. collectContent fuel (serving kids) blockID w
       = Some (Inr (), w\<lparr>blockChildren := m,
                 contentBuilder := contentBuilder w @ depthFirstText kids n (kids blockID),
                 calls := calls w @ new\<rparr>) \<and>
     dom (blockChildren w) \<subseteq> dom m \<and> dom m \<subseteq> docParents kids"
proof -
  from assms(2) obtain f where fuel: "fuel = Suc f" and nf: "n \<le> f"
    by (cases fuel) auto
  from nf have nlt: "n < Suc f" by simp
  from fetchChildBlocks_serving [OF assms(1) nlt, of w] obtain m1 new1 where
    f1: "fetchChildBlocks (Suc f) (serving kids) blockID w
       = Some (Inr (kids blockID), w\<lparr>blockChildren := m1, calls := calls w @ new1\<rparr>)"
      "dom (blockChildren w) \<union> withChildren (kids blockID) \<subseteq> dom m1"
      "dom m1 \<subseteq> dom (blockChildren w) \<union> docParents kids"
    by blast
  let ?w1 = "w\<lparr>blockChildren := m1, calls := calls w @ new1\<rparr>"
  have k1: "withChildren (kids blockID) \<subseteq> dom (blockChildren ?w1)"
    and u1: "dom (blockChildren ?w1) \<subseteq> docParents kids"
    using f1(2,3) assms(4) by (simp_all, blast)
  from collectEach_serving [OF assms(1) nf assms(3) subset_refl k1 u1] obtain m2 new2 where
    e: "collectEach f (serving kids) (kids blockID) ?w1
       = Some (Inr (), ?w1\<lparr>blockChildren := m2,
                 contentBuilder := contentBuilder ?w1 @ depthFirstText kids n (kids blockID),
                 calls := calls ?w1 @ new2\<rparr>)"
      "dom (blockChildren ?w1) \<subseteq> dom m2" "dom m2 \<subseteq> docParents kids"
    by blast
  have "collectContent fuel (serving kids) blockID w
       = Some (Inr (), w\<lparr>blockChildren := m2,
                 contentBuilder := contentBuilder w @ depthFirstText kids n (kids blockID),
                 calls := calls w @ new1 @ new2\<rparr>)"
    unfolding fuel using f1(1) e(1) by (simp del: fetchChildBlocks.simps)
  moreover have "dom (blockChildren w) \<subseteq> dom m2" using f1(2) e(2) by simp blast
  ultimately show ?thesis using e(3)
    by (intro exI [of _ m2] exI [of _ "new1 @ new2"]) simp
qed

lemma collectText_textPayload:
  "collectText b = (case textPayload (payload b) of Some rt \<Rightarrow> getRichTextContent rt | None \<Rightarrow> [])"
  by (cases "payload b") (simp_all del: getRichTextContent.simps)

section \<open>Facts about the identifiers a run asks for\<close>

lemma fetchPages_callees:
  "fetchPages fuel client bid cur blocks w = Some (r, w') \<Longrightarrow>
   \<exists>new. w' = w\<lparr>calls := calls w @ new\<rparr> \<and>
     (\<forall>bs. r = Inr bs \<longrightarrow> bs = blocks @ fetched new) \<and>
     (\<forall>c\<in>set new. callee c = bid)"
proof (induction fuel arbitrary: cur blocks w)
  case 0
  then show ?case by simp
next
  case (Suc fuel)
  let ?pg = "\<lparr>StartCursor = cur, PageSize = 100\<rparr>"
  let ?r = "client (length (calls w)) bid ?pg"
  let ?w1 = "w\<lparr>calls := calls w @ [Call bid ?pg ?r]\<rparr>"
  show ?case
  proof (cases ?r)
    case (Inl err)
    with Suc.prems show ?thesis
      by (intro exI [of _ "[Call bid ?pg ?r]"]) (auto simp: Let_def fetched_def)
  next
    case (Inr resp)
    show ?thesis
    proof (cases "HasMore resp")
      case False
      with Inr Suc.prems show ?thesis
        by (intro exI [of _ "[Call bid ?pg ?r]"]) (auto simp: Let_def fetched_def)
    next
      case True
      with Inr Suc.prems
      have "fetchPages fuel client bid (NextCursor resp) (blocks @ Results resp) ?w1 = Some (r, w')"
        by (simp add: Let_def)
      from Suc.IH [OF this] obtain new where
        n: "w' = ?w1\<lparr>calls := calls ?w1 @ new\<rparr>"
        "\<forall>bs. r = Inr bs \<longrightarrow> bs = (blocks @ Results resp) @ fetched new"
        "\<forall>c\<in>set new. callee c = bid"
        by blast
      show ?thesis
        using n Inr by (intro exI [of _ "Call bid ?pg ?r # new"]) (simp add: fetched_def)
    qed
  qed
qed

lemma fetch_callees:
  "fetchChildBlocks fuel client bid w = Some (r, w') \<Longrightarrow>
     \<exists>new m. w' = w\<lparr>blockChildren := m, calls := calls w @ new\<rparr> \<and>
       dom m \<subseteq> dom (blockChildren w) \<union> withChildren (fetched new) \<and>
       (\<forall>c\<in>set new. callee c = bid \<or> callee c \<in> withChildren (fetched new))"
  "fetchEach fuel client blocks w = Some (r', w') \<Longrightarrow>
     \<exists>new m. w' = w\<lparr>blockChildren := m, calls := calls w @ new\<rparr> \<and>
       dom m \<subseteq> dom (blockChildren w) \<union> withChildren blocks \<union> withChildren (fetched new) \<and>
       (\<forall>c\<in>set new. callee c \<in> withChildren blocks \<union> withChildren (fetched new))"
proof (induction fuel client bid w and fuel client blocks w arbitrary: r w' and r' w'
    rule: fetchChildBlocks_fetchEach.induct)
  case (1 client blockID w)
  then show ?case by simp
next
  case (2 fuel client blockID w)
  note fetchPages.simps [simp del]
  from "2.prems" obtain rp w1 where
    fp: "fetchPages (Suc fuel) client blockID [] [] w = Some (rp, w1)"
    by (auto split: option.splits)
  from fetchPages_callees [OF fp] obtain new1 where
    w1: "w1 = w\<lparr>calls := calls w @ new1\<rparr>" and
    bs: "\<forall>bs. rp = Inr bs \<longrightarrow> bs = fetched new1" and
    c1: "\<forall>c\<in>set new1. callee c = blockID"
    by auto
  show ?case
  proof (cases rp)
    case (Inl err)
    with fp "2.prems" have "r = Inl err" "w' = w1" by auto
    with w1 c1 show ?thesis
      by (intro exI [of _ new1] exI [of _ "blockChildren w"]) auto
  next
    case (Inr blocks)
    with fp "2.prems" obtain re w2 where
      fe: "fetchEach fuel client blocks w1 = Some (re, w2)" and
      w2: "w' = w2"
      by (auto split: option.splits sum.splits)
    from "2.IH" [OF fp refl Inr fe] obtain new2 m where
      e: "w2 = w1\<lparr>blockChildren := m, calls := calls w1 @ new2\<rparr>"
        "dom m \<subseteq> dom (blockChildren w1) \<union> withChildren blocks \<union> withChildren (fetched new2)"
        "\<forall>c\<in>set new2. callee c \<in> withChildren blocks \<union> withChildren (fetched new2)"
      by blast
    from bs Inr have b: "blocks = fetched new1" by simp
    have d: "dom m \<subseteq> dom (blockChildren w) \<union> withChildren (fetched (new1 @ new2))"
      using e(2) w1 b by (simp add: fetched_append withChildren_append) blast
    have c: "\<forall>c\<in>set (new1 @ new2). callee c = blockID \<or>
        callee c \<in> withChildren (fetched (new1 @ new2))"
      using c1 e(3) b by (simp add: fetched_append withChildren_append) blast
    from e(1) w1 w2 d c show ?thesis
      by (intro exI [of _ "new1 @ new2"] exI [of _ m]) simp
  qed
next
  case (3 fuel client w)
  then show ?case
    by (intro exI [of _ "[]"] exI [of _ "blockChildren w"]) auto
next
  case (4 fuel client block rest w)
  show ?case
  proof (cases "GetHasChildren block")
    case False
    with "4.prems" have fe: "fetchEach fuel client rest w = Some (r', w')" by simp
    from "4.IH"(3) [OF False fe] obtain new m where
      e: "w' = w\<lparr>blockChildren := m, calls := calls w @ new\<rparr>"
        "dom m \<subseteq> dom (blockChildren w) \<union> withChildren rest \<union> withChildren (fetched new)"
        "\<forall>c\<in>set new. callee c \<in> withChildren rest \<union> withChildren (fetched new)"
      by blast
    show ?thesis
      using e False by (intro exI [of _ new] exI [of _ m]) (simp add: withChildren_def)
  next
    case True
    have wc: "withChildren (block # rest) = insert (GetID block) (withChildren rest)"
      using True by (simp add: withChildren_def)
    from True "4.prems" obtain rc w1 where
      fc: "fetchChildBlocks fuel client (GetID block) w = Some (rc, w1)"
      by (auto split: option.splits)
    from "4.IH"(1) [OF True fc] obtain new1 m1 where
      e1: "w1 = w\<lparr>blockChildren := m1, calls := calls w @ new1\<rparr>"
        "dom m1 \<subseteq> dom (blockChildren w) \<union> withChildren (fetched new1)"
        "\<forall>c\<in>set new1. callee c = GetID block \<or> callee c \<in> withChildren (fetched new1)"
      by blast
    show ?thesis
    proof (cases rc)
      case (Inl err)
      with fc True "4.prems" have "r' = Inl err" "w' = w1" by auto
      moreover have "dom m1 \<subseteq> dom (blockChildren w) \<union> withChildren (block # rest)
          \<union> withChildren (fetched new1)"
        using e1(2) by blast
      moreover have "\<forall>c\<in>set new1. callee c \<in> withChildren (block # rest)
          \<union> withChildren (fetched new1)"
        using e1(3) wc by auto
      ultimately show ?thesis using e1(1)
        by (intro exI [of _ new1] exI [of _ m1]) simp
    next
      case (Inr childBlocks)
      let ?w2 = "w1\<lparr>blockChildren := (blockChildren w1)(GetID block \<mapsto> childBlocks)\<rparr>"
      from Inr fc True "4.prems" have fe: "fetchEach fuel client rest ?w2 = Some (r', w')"
        by simp
      from "4.IH"(2) [OF True fc refl Inr fe] obtain new2 m2 where
        e2: "w' = ?w2\<lparr>blockChildren := m2, calls := calls ?w2 @ new2\<rparr>"
          "dom m2 \<subseteq> dom (blockChildren ?w2) \<union> withChildren rest \<union> withChildren (fetched new2)"
          "\<forall>c\<in>set new2. callee c \<in> withChildren rest \<union> withChildren (fetched new2)"
        by blast
      have d: "dom m2 \<subseteq> dom (blockChildren w) \<union> withChildren (block # rest)
          \<union> withChildren (fetched (new1 @ new2))"
        using e1(1,2) e2(2) by (simp add: fetched_append withChildren_append wc) blast
      have c: "\<forall>c\<in>set (new1 @ new2). callee c \<in> withChildren (block # rest)
          \<union> withChildren (fetched (new1 @ new2))"
        using e1(3) e2(3) by (simp add: fetched_append withChildren_append wc) blast
      from e1(1) e2(1) d c show ?thesis
        by (intro exI [of _ "new1 @ new2"] exI [of _ m2]) simp
    qed
  qed
qed

lemma print_callees:
  "printBlocksRecursive fuel client bid d w = Some (r, w') \<Longrightarrow>
     \<exists>new m out. w' = w\<lparr>blockChildren := m, stdout := stdout w @ out, calls := calls w @ new\<rparr> \<and>
       dom m \<subseteq> dom (blockChildren w) \<union> withChildren (fetched new) \<and>
       (\<forall>c\<in>set new. callee c = bid \<or>
          callee c \<in> dom (blockChildren w) \<union> withChildren (fetched new))"
  "printEach fuel client blocks d w = Some (r', w') \<Longrightarrow>
     \<exists>new m out. w' = w\<lparr>blockChildren := m, stdout := stdout w @ out, calls := calls w @ new\<rparr> \<and>
       dom m \<subseteq> dom (blockChildren w) \<union> withChildren (fetched new) \<and>
       (\<forall>c\<in>set new. callee c \<in> dom (blockChildren w) \<union> withChildren (fetched new))"
proof (induction fuel client bid d w and fuel client blocks d w arbitrary: r w' and r' w'
    rule: printBlocksRecursive_printEach.induct)
  case (1 client blockID depth w)
  then show ?case by simp
next
  case (2 fuel client blockID depth w)
  note fetchChildBlocks.simps [simp del]
  from "2.prems" obtain rf w1 where
    fc: "fetchChildBlocks (Suc fuel) client blockID w = Some (rf, w1)"
    by (auto split: option.splits)
  from fetch_callees(1) [OF fc] obtain new1 m1 where
    e1: "w1 = w\<lparr>blockChildren := m1, calls := calls w @ new1\<rparr>"
      "dom m1 \<subseteq> dom (blockChildren w) \<union> withChildren (fetched new1)"
      "\<forall>c\<in>set new1. callee c = blockID \<or> callee c \<in> withChildren (fetched new1)"
    by blast
  show ?case
  proof (cases rf)
    case (Inl err)
    with fc "2.prems" have "r = Inl err" "w' = w1" by auto
    moreover have "\<forall>c\<in>set new1. callee c = blockID \<or>
        callee c \<in> dom (blockChildren w) \<union> withChildren (fetched new1)"
      using e1(3) by blast
    ultimately show ?thesis using e1(1,2)
      by (intro exI [of _ new1] exI [of _ m1] exI [of _ "[]"]) simp
  next
    case (Inr blocks)
    with fc "2.prems" have pe: "printEach fuel client blocks depth w1 = Some (r, w')"
      by simp
    from "2.IH" [OF fc refl Inr pe] obtain new2 m2 out where
      e2: "w' = w1\<lparr>blockChildren := m2, stdout := stdout w1 @ out, calls := calls w1 @ new2\<rparr>"
        "dom m2 \<subseteq> dom (blockChildren w1) \<union> withChildren (fetched new2)"
        "\<forall>c\<in>set new2. callee c \<in> dom (blockChildren w1) \<union> withChildren (fetched new2)"
      by blast
    have d: "dom m2 \<subseteq> dom (blockChildren w) \<union> withChildren (fetched (new1 @ new2))"
      using e1(1,2) e2(2) by (simp add: fetched_append withChildren_append) blast
    have c: "\<forall>c\<in>set (new1 @ new2). callee c = blockID \<or>
        callee c \<in> dom (blockChildren w) \<union> withChildren (fetched (new1 @ new2))"
      using e1 e2(3) by (simp add: fetched_append withChildren_append) blast
    from e1(1) e2(1) d c show ?thesis
      by (intro exI [of _ "new1 @ new2"] exI [of _ m2] exI [of _ out]) simp
  qed
next
  case (3 fuel client depth w)
  then show ?case
    by (intro exI [of _ "[]"] exI [of _ "blockChildren w"] exI [of _ "[]"]) auto
next
  case (4 fuel client block rest depth w)
  note printBlock.simps [simp del]
  show ?case
  proof (cases "printBlock block depth")
    case (Inl err)
    with "4.prems" have "r' = Inl err" "w' = w" by auto
    then show ?thesis
      by (intro exI [of _ "[]"] exI [of _ "blockChildren w"] exI [of _ "[]"]) auto
  next
    case (Inr out)
    let ?w1 = "w\<lparr>stdout := stdout w @ out\<rparr>"
    show ?thesis
    proof (cases "blockChildren w (GetID block) \<noteq> None")
      case False
      with Inr "4.prems" have pe: "printEach fuel client rest depth ?w1 = Some (r', w')"
        by simp
      from "4.IH"(3) [OF Inr False pe] obtain new m out' where
        e: "w' = ?w1\<lparr>blockChildren := m, stdout := stdout ?w1 @ out', calls := calls ?w1 @ new\<rparr>"
          "dom m \<subseteq> dom (blockChildren ?w1) \<union> withChildren (fetched new)"
          "\<forall>c\<in>set new. callee c \<in> dom (blockChildren ?w1) \<union> withChildren (fetched new)"
        by blast
      show ?thesis
        using e by (intro exI [of _ new] exI [of _ m] exI [of _ "out @ out'"]) simp
    next
      case True
      then have key: "GetID block \<in> dom (blockChildren w)" by auto
      from True Inr "4.prems" obtain rp w2 where
        pr: "printBlocksRecursive fuel client (GetID block) (depth + 1) ?w1 = Some (rp, w2)"
        by (auto split: option.splits)
      from "4.IH"(1) [OF Inr True pr] obtain new1 m1 out1 where
        e1: "w2 = ?w1\<lparr>blockChildren := m1, stdout := stdout ?w1 @ out1, calls := calls ?w1 @ new1\<rparr>"
          "dom m1 \<subseteq> dom (blockChildren ?w1) \<union> withChildren (fetched new1)"
          "\<forall>c\<in>set new1. callee c = GetID block \<or>
             callee c \<in> dom (blockChildren ?w1) \<union> withChildren (fetched new1)"
        by blast
      have c1: "\<forall>c\<in>set new1. callee c \<in> dom (blockChildren w) \<union> withChildren (fetched new1)"
        using e1(3) key by auto
      show ?thesis
      proof (cases rp)
        case (Inl err)
        with pr True Inr "4.prems" have "r' = Inl err" "w' = w2" by auto
        with e1(1,2) c1 show ?thesis
          by (intro exI [of _ new1] exI [of _ m1] exI [of _ "out @ out1"]) simp
      next
        case R: (Inr u)
        with pr True Inr "4.prems" have pe: "printEach fuel client rest depth w2 = Some (r', w')"
          by auto
        from "4.IH"(2) [OF Inr True pr refl R pe] obtain new2 m2 out2 where
          e2: "w' = w2\<lparr>blockChildren := m2, stdout := stdout w2 @ out2, calls := calls w2 @ new2\<rparr>"
            "dom m2 \<subseteq> dom (blockChildren w2) \<union> withChildren (fetched new2)"
            "\<forall>c\<in>set new2. callee c \<in> dom (blockChildren w2) \<union> withChildren (fetched new2)"
          by blast
        have d: "dom m2 \<subseteq> dom (blockChildren w) \<union> withChildren (fetched (new1 @ new2))"
          using e1(1,2) e2(2) by (simp add: fetched_append withChildren_append) blast
        have c: "\<forall>c\<in>set (new1 @ new2).
            callee c \<in> dom (blockChildren w) \<union> withChildren (fetched (new1 @ new2))"
          using c1 e1(1,2) e2(3) by (simp add: fetched_append withChildren_append) blast
        from e1(1) e2(1) d c show ?thesis
          by (intro exI [of _ "new1 @ new2"] exI [of _ m2] exI [of _ "out @ out1 @ out2"]) simp
      qed
    qed
  qed
qed

lemma collect_callees:
  "collectContent fuel client bid w = Some (r, w') \<Longrightarrow>
     \<exists>new m out. w' = w\<lparr>blockChildren := m, contentBuilder := contentBuilder w @ out, calls := calls w @ new\<rparr> \<and>
       dom m \<subseteq> dom (blockChildren w) \<union> withChildren (fetched new) \<and>
       (\<forall>c\<in>set new. callee c = bid \<or>
          callee c \<in> dom (blockChildren w) \<union> withChildren (fetched new))"
  "collectEach fuel client blocks w = Some (r', w') \<Longrightarrow>
     \<exists>new m out. w' = w\<lparr>blockChildren := m, contentBuilder := contentBuilder w @ out, calls := calls w @ new\<rparr> \<and>
       dom m \<subseteq> dom (blockChildren w) \<union> withChildren (fetched new) \<and>
       (\<forall>c\<in>set new. callee c \<in> dom (blockChildren w) \<union> withChildren (fetched new))"
proof (induction fuel client bid w and fuel client blocks w arbitrary: r w' and r' w'
    rule: collectContent_collectEach.induct)
  case (1 client blockID w)
  then show ?case by simp
next
  case (2 fuel client blockID w)
  note fetchChildBlocks.simps [simp del]
  from "2.prems" obtain rf w1 where
    fc: "fetchChildBlocks (Suc fuel) client blockID w = Some (rf, w1)"
    by (auto split: option.splits)
  from fetch_callees(1) [OF fc] obtain new1 m1 where
    e1: "w1 = w\<lparr>blockChildren := m1, calls := calls w @ new1\<rparr>"
      "dom m1 \<subseteq> dom (blockChildren w) \<union> withChildren (fetched new1)"
      "\<forall>c\<in>set new1. callee c = blockID \<or> callee c \<in> withChildren (fetched new1)"
    by blast
  show ?case
  proof (cases rf)
    case (Inl err)
    with fc "2.prems" have "r = Inl err" "w' = w1" by auto
    moreover have "\<forall>c\<in>set new1. callee c = blockID \<or>
        callee c \<in> dom (blockChildren w) \<union> withChildren (fetched new1)"
      using e1(3) by blast
    ultimately show ?thesis using e1(1,2)
      by (intro exI [of _ new1] exI [of _ m1] exI [of _ "[]"]) simp
  next
    case (Inr blocks)
    with fc "2.prems" have pe: "collectEach fuel client blocks w1 = Some (r, w')"
      by simp
    from "2.IH" [OF fc refl Inr pe] obtain new2 m2 out where
      e2: "w' = w1\<lparr>blockChildren := m2, contentBuilder := contentBuilder w1 @ out, calls := calls w1 @ new2\<rparr>"
        "dom m2 \<subseteq> dom (blockChildren w1) \<union> withChildren (fetched new2)"
        "\<forall>c\<in>set new2. callee c \<in> dom (blockChildren w1) \<union> withChildren (fetched new2)"
      by blast
    have d: "dom m2 \<subseteq> dom (blockChildren w) \<union> withChildren (fetched (new1 @ new2))"
      using e1(1,2) e2(2) by (simp add: fetched_append withChildren_append) blast
    have c: "\<forall>c\<in>set (new1 @ new2). callee c = blockID \<or>
        callee c \<in> dom (blockChildren w) \<union> withChildren (fetched (new1 @ new2))"
      using e1 e2(3) by (simp add: fetched_append withChildren_append) blast
    from e1(1) e2(1) d c show ?thesis
      by (intro exI [of _ "new1 @ new2"] exI [of _ m2] exI [of _ out]) simp
  qed
next
  case (3 fuel client w)
  then show ?case
    by (intro exI [of _ "[]"] exI [of _ "blockChildren w"] exI [of _ "[]"]) auto
next
  case (4 fuel client block rest w)
  note collectText.simps [simp del]
  let ?out = "collectText block @ nl @ nl"
  let ?w1 = "w\<lparr>contentBuilder := contentBuilder w @ ?out\<rparr>"
  show ?case
  proof (cases "blockChildren w (GetID block) \<noteq> None")
    case False
    with "4.prems" have pe: "collectEach fuel client rest ?w1 = Some (r', w')"
      by simp
    from "4.IH"(3) [OF False pe] obtain new m out' where
      e: "w' = ?w1\<lparr>blockChildren := m, contentBuilder := contentBuilder ?w1 @ out',
                    calls := calls ?w1 @ new\<rparr>"
        "dom m \<subseteq> dom (blockChildren ?w1) \<union> withChildren (fetched new)"
        "\<forall>c\<in>set new. callee c \<in> dom (blockChildren ?w1) \<union> withChildren (fetched new)"
      by blast
    show ?thesis
      using e by (intro exI [of _ new] exI [of _ m] exI [of _ "?out @ out'"]) simp
  next
    case True
    then have key: "GetID block \<in> dom (blockChildren w)" by auto
    from True "4.prems" obtain rp w2 where
      pr: "collectContent fuel client (GetID block) ?w1 = Some (rp, w2)"
      by (auto split: option.splits)
    from "4.IH"(1) [OF True pr] obtain new1 m1 out1 where
      e1: "w2 = ?w1\<lparr>blockChildren := m1, contentBuilder := contentBuilder ?w1 @ out1,
                     calls := calls ?w1 @ new1\<rparr>"
        "dom m1 \<subseteq> dom (blockChildren ?w1) \<union> withChildren (fetched new1)"
        "\<forall>c\<in>set new1. callee c = GetID block \<or>
           callee c \<in> dom (blockChildren ?w1) \<union> withChildren (fetched new1)"
      by blast
    have c1: "\<forall>c\<in>set new1. callee c \<in> dom (blockChildren w) \<union> withChildren (fetched new1)"
      using e1(3) key by auto
    show ?thesis
    proof (cases rp)
      case (Inl err)
      with pr True "4.prems" have "r' = Inl err" "w' = w2" by auto
      with e1(1,2) c1 show ?thesis
        by (intro exI [of _ new1] exI [of _ m1] exI [of _ "?out @ out1"]) simp
    next
      case R: (Inr u)
      with pr True "4.prems" have pe: "collectEach fuel client rest w2 = Some (r', w')"
        by auto
      from "4.IH"(2) [OF True pr refl R pe] obtain new2 m2 out2 where
        e2: "w' = w2\<lparr>blockChildren := m2, contentBuilder := contentBuilder w2 @ out2,
                      calls := calls w2 @ new2\<rparr>"
          "dom m2 \<subseteq> dom (blockChildren w2) \<union> withChildren (fetched new2)"
          "\<forall>c\<in>set new2. callee c \<in> dom (blockChildren w2) \<union> withChildren (fetched new2)"
        by blast
      have d: "dom m2 \<subseteq> dom (blockChildren w) \<union> withChildren (fetched (new1 @ new2))"
        using e1(1,2) e2(2) by (simp add: fetched_append withChildren_append) blast
      have c: "\<forall>c\<in>set (new1 @ new2).
          callee c \<in> dom (blockChildren w) \<union> withChildren (fetched (new1 @ new2))"
        using c1 e1(1,2) e2(3) by (simp add: fetched_append withChildren_append) blast
      from e1(1) e2(1) d c show ?thesis
        by (intro exI [of _ "new1 @ new2"] exI [of _ m2] exI [of _ "?out @ out1 @ out2"]) simp
    qed
  qed
qed

section \<open>Facts about the lines written\<close>

lemma SplitLines_append:
  "SplitLines (a @ CHR 0x0A # b) = SplitLines a @ SplitLines b"
proof (induction a)
  case Nil
  show ?case by simp
next
  case (Cons c cs)
  obtain l ls where "SplitLines cs = l # ls" using SplitLines_nonempty by blast
  with Cons show ?case by simp
qed

lemma SplitLines_oneLine: "oneLine a \<Longrightarrow> SplitLines a = [a]"
  by (induction a) (auto simp: oneLine_def)

lemma SplitLines_line: "oneLine a \<Longrightarrow> SplitLines (a @ CHR 0x0A # b) = a # SplitLines b"
  by (simp add: SplitLines_append SplitLines_oneLine)

lemma SplitLines_prefix:
  "oneLine a \<Longrightarrow> SplitLines (a @ s) = (a @ hd (SplitLines s)) # tl (SplitLines s)"
proof (induction a)
  case Nil
  obtain l ls where "SplitLines s = l # ls" using SplitLines_nonempty by blast
  then show ?case by simp
next
  case (Cons c cs)
  then show ?case by (auto simp: oneLine_def)
qed

lemma oneLine_SplitLines: "l \<in> set (SplitLines s) \<Longrightarrow> oneLine l"
proof (induction s arbitrary: l)
  case Nil
  then show ?case by (simp add: oneLine_def)
next
  case (Cons c cs)
  obtain x xs where e: "SplitLines cs = x # xs" using SplitLines_nonempty by blast
  show ?case
  proof (cases "c = CHR 0x0A")
    case True
    with Cons show ?thesis by (auto simp: oneLine_def)
  next
    case False
    with Cons.prems e have "l = c # x \<or> l \<in> set xs" by simp
    moreover have "oneLine x" using Cons.IH [of x] e by simp
    moreover have "l \<in> set xs \<Longrightarrow> oneLine l" using Cons.IH [of l] e by simp
    ultimately show ?thesis using False by (auto simp: oneLine_def)
  qed
qed

lemma oneLine_Nil [simp]: "oneLine []"
  by (simp add: oneLine_def)

lemma oneLine_Cons [simp]: "oneLine (c # s) \<longleftrightarrow> c \<noteq> CHR 0x0A \<and> oneLine s"
  by (auto simp: oneLine_def)

lemma oneLine_literals [simp]:
  "oneLine ''> ''" "oneLine ''```''" "oneLine ''# ''" "oneLine ''## ''" "oneLine ''### ''"
  "oneLine ''- ''" "oneLine ''1. ''" "oneLine ''[x]''" "oneLine ''[ ]''" "oneLine '' ''"
  "oneLine ''![Image](''" "oneLine '')''" "oneLine ''---''" "oneLine ''| ''" "oneLine '' | ''"
  "oneLine '' |''" "oneLine defaultIcon"
  by (simp_all add: oneLine_def defaultIcon_def)

lemma oneLine_append [simp]: "oneLine (a @ b) \<longleftrightarrow> oneLine a \<and> oneLine b"
  by (auto simp: oneLine_def)

lemma oneLine_indent [simp]: "oneLine (indent d)"
  by (simp add: oneLine_def indent_replicate)

lemma oneLine_Join:
  "list_all oneLine xs \<Longrightarrow> oneLine sep \<Longrightarrow> oneLine (Join xs sep)"
  by (induction xs sep rule: Join.induct) simp_all

lemma emittedLines_one: "oneLine a \<Longrightarrow> emittedLines (a @ nl) = [a]"
  by (simp add: emittedLines_def SplitLines_line)

lemma emittedLines_two: "oneLine a \<Longrightarrow> emittedLines (a @ nl @ nl) = [a, []]"
  by (simp add: emittedLines_def SplitLines_line)

lemma SplitLines_each:
  "list_all (\<lambda>l. oneLine (f l)) ls \<Longrightarrow>
   SplitLines (concat (map (\<lambda>l. f l @ nl) ls) @ rest) = map f ls @ SplitLines rest"
  by (induction ls) (simp_all add: SplitLines_line)

lemma emittedLines_quote:
  "emittedLines (concat (map (\<lambda>line. indent depth @ ''> '' @ line @ nl) (SplitLines s)) @ nl)
     = map (\<lambda>line. indent depth @ ''> '' @ line) (SplitLines s) @ [[]]"
proof -
  have a: "list_all (\<lambda>l. oneLine (indent depth @ ''> '' @ l)) (SplitLines s)"
    by (simp add: list_all_iff oneLine_SplitLines)
  have e: "(\<lambda>line. indent depth @ ''> '' @ line @ nl)
      = (\<lambda>line. (indent depth @ ''> '' @ line) @ nl)"
    by simp
  show ?thesis
    unfolding emittedLines_def e SplitLines_each [OF a] by (simp add: butlast_append)
qed

lemma indented_indent [simp]: "indented depth (indent depth @ rest)"
  by (simp add: indented_def indent_replicate)

lemma emittedLines_code:
  assumes "oneLine language"
  shows "emittedLines (indent depth @ ''```'' @ language @ nl
                 @ indent depth @ s @ nl
                 @ indent depth @ ''```'' @ nl @ nl)
    = (indent depth @ ''```'' @ language)
        # (indent depth @ hd (SplitLines s)) # tl (SplitLines s)
        @ [indent depth @ ''```'', []]"
proof -
  let ?a = "indent depth @ ''```'' @ language"
  let ?c = "indent depth @ ''```''"
  have f: "oneLine ?a" using assms by simp
  have g: "oneLine ?c" by simp
  have 1: "SplitLines (?a @ CHR 0x0A # r) = ?a # SplitLines r" for r
    by (rule SplitLines_line [OF f])
  have 2: "SplitLines ((indent depth @ s) @ CHR 0x0A # r)
      = ((indent depth @ hd (SplitLines s)) # tl (SplitLines s)) @ SplitLines r" for r
    by (simp only: SplitLines_append SplitLines_prefix [OF oneLine_indent])
  have 3: "SplitLines (?c @ CHR 0x0A # nl) = [?c, [], []]"
    by (simp only: SplitLines_line [OF g]) simp
  have e: "indent depth @ ''```'' @ language @ nl @ indent depth @ s @ nl
                 @ indent depth @ ''```'' @ nl @ nl
      = ?a @ CHR 0x0A # ((indent depth @ s) @ CHR 0x0A # (?c @ CHR 0x0A # nl))"
    by simp
  have "SplitLines (indent depth @ ''```'' @ language @ nl @ indent depth @ s @ nl
                 @ indent depth @ ''```'' @ nl @ nl)
      = ?a # ((indent depth @ hd (SplitLines s)) # tl (SplitLines s)) @ [?c, [], []]"
    by (simp only: e 1 2 3)
  then show ?thesis
    unfolding emittedLines_def by (simp only: butlast.simps butlast_append) simp
qed

lemma leadingSpaces_indented: "leadingSpaces (indent d @ rest) = 4 * d + leadingSpaces rest"
  by (simp add: indent_replicate leadingSpaces_indent)

lemma printBlock_lines:
  assumes "printBlock block depth = Inr out" and "out \<noteq> []" and "singleLine (payload block)"
  shows "emittedLines out \<noteq> [] \<and>
    (if blankLineAfter (payload block)
     then last (emittedLines out) = [] \<and> butlast (emittedLines out) \<noteq> [] \<and>
       list_all (indented depth) (butlast (emittedLines out)) \<and>
       (case payload block of
          ParagraphBlock rt \<Rightarrow> True
        | CodeBlock rt language \<Rightarrow> True
        | _ \<Rightarrow> list_all (\<lambda>line. leadingSpaces line = 4 * depth) (butlast (emittedLines out)))
     else list_all (indented depth) (emittedLines out) \<and>
       list_all (\<lambda>line. leadingSpaces line = 4 * depth) (emittedLines out))"
proof (cases "payload block")
  case (QuoteBlock rt)
  obtain l ls where ne: "SplitLines (getRichTextContent rt) = l # ls"
    using SplitLines_nonempty by blast
  from assms QuoteBlock have out: "out = concat (map (\<lambda>line. indent depth @ ''> '' @ line @ nl)
      (SplitLines (getRichTextContent rt))) @ nl"
    by (simp del: getRichTextContent.simps)
  have lines: "emittedLines out
      = map (\<lambda>line. indent depth @ ''> '' @ line) (SplitLines (getRichTextContent rt)) @ [[]]"
    unfolding out by (rule emittedLines_quote)
  show ?thesis
    unfolding lines using QuoteBlock ne
    by (simp add: list_all_iff leadingSpaces_indented del: getRichTextContent.simps)
next
  case (CodeBlock rt language)
  with assms have l: "oneLine language" and t: "oneLine (getRichTextContent rt)" by simp_all
  from assms CodeBlock have out: "out = indent depth @ ''```'' @ language @ nl
      @ indent depth @ getRichTextContent rt @ nl @ indent depth @ ''```'' @ nl @ nl"
    by (simp del: getRichTextContent.simps)
  show ?thesis
    unfolding out emittedLines_code [OF l] using CodeBlock
    by (simp add: SplitLines_oneLine [OF t] del: getRichTextContent.simps)
next
  case (ImageBlock img)
  with assms show ?thesis
    by (auto simp: emittedLines_def SplitLines_prefix leadingSpaces_indented nilDereference_def
        split: if_splits option.splits)
next
  case (CalloutBlock rt icon)
  with assms show ?thesis
    by (auto simp: emittedLines_def SplitLines_prefix leadingSpaces_indented nilDereference_def
        defaultIcon_def
        simp del: getRichTextContent.simps split: if_splits option.splits)
next
  case (TableRowBlock cells)
  have j: "oneLine (Join (map getRichTextContent cells) '' | '')"
    using assms TableRowBlock
    by (intro oneLine_Join) (simp_all add: list_all_iff del: getRichTextContent.simps)
  from assms TableRowBlock have out: "out = indent depth @ ''| ''
      @ Join (map getRichTextContent cells) '' | '' @ '' |'' @ nl"
    by (simp del: getRichTextContent.simps)
  show ?thesis
    unfolding out using TableRowBlock j
    by (simp add: emittedLines_def SplitLines_prefix leadingSpaces_indented
        del: getRichTextContent.simps)
qed (use assms in \<open>auto simp: emittedLines_def SplitLines_prefix leadingSpaces_indented
        simp del: getRichTextContent.simps\<close>)

lemma printBlock_indented:
  assumes "printBlock block depth = Inr out" and "out \<noteq> []"
  shows "take (4 * depth) out = replicate (4 * depth) (CHR '' '') \<and>
    leadingSpaces out =
      4 * depth + (case payload block of
                     ParagraphBlock rt \<Rightarrow> leadingSpaces (getRichTextContent rt)
                   | _ \<Rightarrow> 0)"
proof (cases "payload block")
  case (QuoteBlock rt)
  obtain l ls where "SplitLines (getRichTextContent rt) = l # ls"
    using SplitLines_nonempty by blast
  with assms QuoteBlock show ?thesis
    by (auto simp: leadingSpaces_indent indent_replicate simp del: getRichTextContent.simps)
next
  case (ParagraphBlock rt)
  with assms show ?thesis
    by (auto simp: leadingSpaces_indent leadingSpaces_text indent_replicate
        simp del: getRichTextContent.simps)
next
  case (ImageBlock img)
  with assms show ?thesis
    by (auto simp: leadingSpaces_indent indent_replicate nilDereference_def
        split: if_splits option.splits)
next
  case (CalloutBlock rt icon)
  with assms show ?thesis
    by (auto simp: leadingSpaces_indent indent_replicate nilDereference_def
        simp del: getRichTextContent.simps split: if_splits option.splits)
qed (use assms in \<open>auto simp: leadingSpaces_indent indent_replicate simp del: getRichTextContent.simps\<close>)

section \<open>Facts about the rendering of a served document\<close>

lemma printEach_serving:
  "nestingWithin kids n bs \<Longrightarrow> n \<le> fuel \<Longrightarrow> consistentFlags kids \<Longrightarrow>
   set bs \<subseteq> set (kids p) \<Longrightarrow> withChildren bs \<subseteq> dom (blockChildren w) \<Longrightarrow>
   dom (blockChildren w) \<subseteq> docParents kids \<Longrightarrow> neverPanics kids \<Longrightarrow>
   \<exists>m new. printEach fuel (serving kids) bs depth w
       = Some (Inr (), w\<lparr>blockChildren := m,
                 stdout := stdout w @ depthFirstRendering kids n depth bs,
                 calls := calls w @ new\<rparr>) \<and>
     dom (blockChildren w) \<subseteq> dom m \<and> dom m \<subseteq> docParents kids"
proof (induction kids n bs arbitrary: fuel w p depth rule: nestingWithin.induct)
  case (1 kids n)
  show ?case
    using "1.prems" by (intro exI [of _ "blockChildren w"] exI [of _ "[]"]) simp
next
  case (2 kids n b bs)
  note printBlock.simps [simp del]
  from "2.prems" have rest: "nestingWithin kids n bs" and sub: "set bs \<subseteq> set (kids p)"
    and b: "b \<in> set (kids p)"
    by simp_all
  have "withChildren (b # bs) = withChildren [b] \<union> withChildren bs"
    by (simp add: withChildren_def)
  with "2.prems"(5) have keys: "withChildren bs \<subseteq> dom (blockChildren w)"
    and kb: "withChildren [b] \<subseteq> dom (blockChildren w)"
    by simp_all
  note cons = "2.prems"(3) and up = "2.prems"(6) and calm = "2.prems"(7)
  from key_iff_flag [OF cons b kb up]
  have key: "blockChildren w (GetID b) \<noteq> None \<longleftrightarrow> GetHasChildren b" .
  from calm b have "\<not> isl (printBlock b depth)"
    unfolding neverPanics_def by blast
  then obtain out where out: "printBlock b depth = Inr out"
    by (cases "printBlock b depth") auto
  let ?w1 = "w\<lparr>stdout := stdout w @ out\<rparr>"
  show ?case
  proof (cases "GetHasChildren b")
    case False
    from "2.IH"(2) [OF rest "2.prems"(2) cons sub _ _ calm, of ?w1 depth] keys up obtain m new where
      e: "printEach fuel (serving kids) bs depth ?w1
         = Some (Inr (), ?w1\<lparr>blockChildren := m,
                 stdout := stdout ?w1 @ depthFirstRendering kids n depth bs,
                 calls := calls ?w1 @ new\<rparr>)"
        "dom (blockChildren ?w1) \<subseteq> dom m" "dom m \<subseteq> docParents kids"
      by auto
    from False key have none: "blockChildren w (GetID b) = None" by simp
    have "printEach fuel (serving kids) (b # bs) depth w
         = Some (Inr (), w\<lparr>blockChildren := m,
                 stdout := stdout w @ depthFirstRendering kids n depth (b # bs),
                 calls := calls w @ new\<rparr>)"
      using e(1) none False out by simp
    with e(2,3) show ?thesis
      by (intro exI [of _ m] exI [of _ new]) simp
  next
    case True
    with "2.prems" obtain k where n: "n = Suc k" and
      inner: "nestingWithin kids k (kids (GetID b))"
      by (cases n) auto
    from n "2.prems"(2) obtain f where fuel: "fuel = Suc f" and kf: "k \<le> f"
      by (cases fuel) auto
    from kf have klt: "k < Suc f" by simp
    from fetchChildBlocks_serving [OF inner klt, of ?w1] obtain m1 new1 where
      f1: "fetchChildBlocks (Suc f) (serving kids) (GetID b) ?w1
         = Some (Inr (kids (GetID b)), ?w1\<lparr>blockChildren := m1, calls := calls ?w1 @ new1\<rparr>)"
        "dom (blockChildren ?w1) \<union> withChildren (kids (GetID b)) \<subseteq> dom m1"
        "dom m1 \<subseteq> dom (blockChildren ?w1) \<union> docParents kids"
      by blast
    let ?w2 = "?w1\<lparr>blockChildren := m1, calls := calls ?w1 @ new1\<rparr>"
    have k2: "withChildren (kids (GetID b)) \<subseteq> dom (blockChildren ?w2)"
      and u2: "dom (blockChildren ?w2) \<subseteq> docParents kids"
      using f1(2,3) up by (simp_all, blast)
    from "2.IH"(1) [OF True n inner kf cons subset_refl k2 u2 calm, of "depth + 1"]
    obtain m2 new2 where
      e2: "printEach f (serving kids) (kids (GetID b)) (depth + 1) ?w2
         = Some (Inr (), ?w2\<lparr>blockChildren := m2,
                 stdout := stdout ?w2 @ depthFirstRendering kids k (depth + 1) (kids (GetID b)),
                 calls := calls ?w2 @ new2\<rparr>)"
        "dom (blockChildren ?w2) \<subseteq> dom m2" "dom m2 \<subseteq> docParents kids"
      by blast
    let ?w3 = "?w2\<lparr>blockChildren := m2,
                 stdout := stdout ?w2 @ depthFirstRendering kids k (depth + 1) (kids (GetID b)),
                 calls := calls ?w2 @ new2\<rparr>"
    have inner_walk: "printBlocksRecursive fuel (serving kids) (GetID b) (depth + 1) ?w1
        = Some (Inr (), ?w3)"
      unfolding fuel using f1(1) e2(1)
      by (simp del: fetchChildBlocks.simps)
    have k3: "withChildren bs \<subseteq> dom (blockChildren ?w3)"
      using keys f1(2) e2(2) by simp blast
    have u3: "dom (blockChildren ?w3) \<subseteq> docParents kids"
      using e2(3) by simp
    from "2.IH"(2) [OF rest "2.prems"(2) cons sub k3 u3 calm, of depth] obtain m3 new3 where
      e3: "printEach fuel (serving kids) bs depth ?w3
         = Some (Inr (), ?w3\<lparr>blockChildren := m3,
                 stdout := stdout ?w3 @ depthFirstRendering kids n depth bs,
                 calls := calls ?w3 @ new3\<rparr>)"
        "dom (blockChildren ?w3) \<subseteq> dom m3" "dom m3 \<subseteq> docParents kids"
      by blast
    from True key have some: "blockChildren w (GetID b) \<noteq> None" by simp
    have "printEach fuel (serving kids) (b # bs) depth w
         = Some (Inr (), ?w3\<lparr>blockChildren := m3,
                 stdout := stdout ?w3 @ depthFirstRendering kids n depth bs,
                 calls := calls ?w3 @ new3\<rparr>)"
      using some inner_walk e3(1) out by (simp del: printBlocksRecursive.simps)
    moreover have "dom (blockChildren w) \<subseteq> dom m3"
      using f1(2) e2(2) e3(2) by simp blast
    ultimately show ?thesis
      using e3(3) True n out
      by (intro exI [of _ m3] exI [of _ "new1 @ new2 @ new3"]) simp
  qed
qed

lemma printBlocksRecursive_serving:
  assumes "nestingWithin kids n (kids blockID)" and "n < fuel" and "consistentFlags kids"
    and "dom (blockChildren w) \<subseteq> docParents kids" and "neverPanics kids"
  shows "\<exists>m new. printBlocksRecursive fuel (serving kids) blockID depth w
       = Some (Inr (), w\<lparr>blockChildren := m,
                 stdout := stdout w @ depthFirstRendering kids n depth (kids blockID),
                 calls := calls w @ new\<rparr>) \<and>
     dom (blockChildren w) \<subseteq> dom m \<and> dom m \<subseteq> docParents kids"
proof -
  from assms(2) obtain f where fuel: "fuel = Suc f" and nf: "n \<le> f"
    by (cases fuel) auto
  from nf have nlt: "n < Suc f" by simp
  from fetchChildBlocks_serving [OF assms(1) nlt, of w] obtain m1 new1 where
    f1: "fetchChildBlocks (Suc f) (serving kids) blockID w
       = Some (Inr (kids blockID), w\<lparr>blockChildren := m1, calls := calls w @ new1\<rparr>)"
      "dom (blockChildren w) \<union> withChildren (kids blockID) \<subseteq> dom m1"
      "dom m1 \<subseteq> dom (blockChildren w) \<union> docParents kids"
    by blast
  let ?w1 = "w\<lparr>blockChildren := m1, calls := calls w @ new1\<rparr>"
  have k1: "withChildren (kids blockID) \<subseteq> dom (blockChildren ?w1)"
    and u1: "dom (blockChildren ?w1) \<subseteq> docParents kids"
    using f1(2,3) assms(4) by (simp_all, blast)
  from printEach_serving [OF assms(1) nf assms(3) subset_refl k1 u1 assms(5), of depth]
  obtain m2 new2 where
    e: "printEach f (serving kids) (kids blockID) depth ?w1
       = Some (Inr (), ?w1\<lparr>blockChildren := m2,
                 stdout := stdout ?w1 @ depthFirstRendering kids n depth (kids blockID),
                 calls := calls ?w1 @ new2\<rparr>)"
      "dom (blockChildren ?w1) \<subseteq> dom m2" "dom m2 \<subseteq> docParents kids"
    by blast
  have "printBlocksRecursive fuel (serving kids) blockID depth w
       = Some (Inr (), w\<lparr>blockChildren := m2,
                 stdout := stdout w @ depthFirstRendering kids n depth (kids blockID),
                 calls := calls w @ new1 @ new2\<rparr>)"
    unfolding fuel using f1(1) e(1) by (simp del: fetchChildBlocks.simps)
  moreover have "dom (blockChildren w) \<subseteq> dom m2" using f1(2) e(2) by simp blast
  ultimately show ?thesis using e(3)
    by (intro exI [of _ m2] exI [of _ "new1 @ new2"]) simp
qed

lemma main_serving:
  assumes args: "length args = 2" and token: "Getenv env ''NOTION_API_TOKEN'' \<noteq> []"
    and nest: "nestingWithin kids n (kids (formatPageID (args ! 1)))" and fuel: "n < fuel"
    and cons: "consistentFlags kids" and calm: "neverPanics kids"
  shows "\<exists>ex w rest. main args env (\<lambda>token. serving kids) chat fuel = Some (ex, w) \<and>
    stdout w = depthFirstRendering kids n 0 (kids (formatPageID (args ! 1))) @ rest"
proof -
  let ?page = "formatPageID (args ! 1)"
  have d: "dom (blockChildren start) \<subseteq> docParents kids" by (simp add: start_def)
  from printBlocksRecursive_serving [OF nest fuel cons d calm, of 0] obtain m1 new1 where
    p: "printBlocksRecursive fuel (serving kids) ?page 0 start
       = Some (Inr (), start\<lparr>blockChildren := m1,
                 stdout := stdout start @ depthFirstRendering kids n 0 (kids ?page),
                 calls := calls start @ new1\<rparr>)"
    and d1: "dom m1 \<subseteq> docParents kids"
    by blast
  let ?w1 = "start\<lparr>blockChildren := m1,
                 stdout := stdout start @ depthFirstRendering kids n 0 (kids ?page),
                 calls := calls start @ new1\<rparr>"
  from d1 have d1': "dom (blockChildren ?w1) \<subseteq> docParents kids" by simp
  from collectContent_serving [OF nest fuel cons d1'] obtain m2 new2 where
    c: "collectContent fuel (serving kids) ?page ?w1
       = Some (Inr (), ?w1\<lparr>blockChildren := m2,
                 contentBuilder := contentBuilder ?w1 @ depthFirstText kids n (kids ?page),
                 calls := calls ?w1 @ new2\<rparr>)"
    by blast
  let ?w2 = "?w1\<lparr>blockChildren := m2,
                 contentBuilder := contentBuilder ?w1 @ depthFirstText kids n (kids ?page),
                 calls := calls ?w1 @ new2\<rparr>"
  let ?w3 = "?w2\<lparr>stdout := stdout ?w2 @ summaryHeader @ nl\<rparr>"
  obtain r w4 where s: "summarizeContent env chat (contentBuilder ?w2) ?w3 = (r, w4)"
    by (cases "summarizeContent env chat (contentBuilder ?w2) ?w3") auto
  from summarize_frame [OF s] have o: "stdout w4 = stdout ?w3" by auto
  have o3: "stdout ?w3 = depthFirstRendering kids n 0 (kids ?page) @ summaryHeader @ nl"
    by (simp add: start_def)
  have run: "main args env (\<lambda>token. serving kids) chat fuel
      = (case r of
           Inl (Error e) \<Rightarrow>
             Some (Exit 0, w4\<lparr>stderr := stderr w4 @ ''Error generating summary: '' @ e @ nl\<rparr>)
         | Inl (Panic q) \<Rightarrow> Some (Crash q, w4)
         | Inr summary \<Rightarrow> Some (Exit 0, w4\<lparr>stdout := stdout w4 @ summary @ nl\<rparr>))"
    using args token p c s
    by (simp add: main_def Let_def del: printBlocksRecursive.simps collectContent.simps)
  show ?thesis
  proof (cases r)
    case (Inl err)
    show ?thesis
    proof (cases err)
      case (Error e)
      with Inl run o o3 show ?thesis
        by (intro exI [of _ "Exit 0"]
            exI [of _ "w4\<lparr>stderr := stderr w4 @ ''Error generating summary: '' @ e @ nl\<rparr>"]
            exI [of _ "summaryHeader @ nl"]) simp
    next
      case (Panic q)
      with Inl run o o3 show ?thesis
        by (intro exI [of _ "Crash q"] exI [of _ w4] exI [of _ "summaryHeader @ nl"]) simp
    qed
  next
    case (Inr summary)
    with run o o3 show ?thesis
      by (intro exI [of _ "Exit 0"] exI [of _ "w4\<lparr>stdout := stdout w4 @ summary @ nl\<rparr>"]
          exI [of _ "summaryHeader @ nl @ summary @ nl"]) simp
  qed
qed

section \<open>The claims\<close>

text \<open>
  C1 (as amended). For a document served by the remote API, \<open>collectContent\<close> returns
  and appends the document in depth-first order: each block contributes the concatenated
  plain text of its text runs when its kind carries a text payload, nothing when it does
  not, and then, whatever its kind, the separator of two newlines; the contribution of its
  children follows before the next sibling.
\<close>

theorem flattened_text:
  assumes "nestingWithin kids n (kids blockID)" and "n < fuel" and "consistentFlags kids"
    and "dom (blockChildren w) \<subseteq> docParents kids"
  shows "(\<exists>w'. collectContent fuel (serving kids) blockID w = Some (Inr (), w') \<and>
       contentBuilder w' = contentBuilder w @ depthFirstText kids n (kids blockID)) \<and>
    collectText b =
      (case textPayload (payload b) of Some rt \<Rightarrow> getRichTextContent rt | None \<Rightarrow> []) \<and>
    depthFirstText kids (Suc n) (b # bs) =
      collectText b @ nl @ nl
        @ (if GetHasChildren b then depthFirstText kids n (kids (GetID b)) else [])
        @ depthFirstText kids (Suc n) bs"
proof -
  from collectContent_serving [OF assms] obtain m new where
    run: "collectContent fuel (serving kids) blockID w
       = Some (Inr (), w\<lparr>blockChildren := m,
                 contentBuilder := contentBuilder w @ depthFirstText kids n (kids blockID),
                 calls := calls w @ new\<rparr>)"
    by blast
  have "\<exists>w'. collectContent fuel (serving kids) blockID w = Some (Inr (), w') \<and>
       contentBuilder w' = contentBuilder w @ depthFirstText kids n (kids blockID)"
    unfolding run by simp
  moreover note collectText_textPayload [of b]
  moreover have "depthFirstText kids (Suc n) (b # bs) =
      collectText b @ nl @ nl
        @ (if GetHasChildren b then depthFirstText kids n (kids (GetID b)) else [])
        @ depthFirstText kids (Suc n) bs"
    by (simp del: collectText.simps)
  ultimately show ?thesis by (intro conjI)
qed

theorem flattened_text_witness:
  "nestingWithin nestedKids 1 (nestedKids ''root'') \<and> (1 :: nat) < 2 \<and>
   consistentFlags nestedKids \<and> dom (blockChildren start) \<subseteq> docParents nestedKids \<and>
   (\<exists>w'. collectContent 2 (serving nestedKids) ''root'' start = Some (Inr (), w') \<and>
      contentBuilder w' = ''more'' @ nl @ nl @ ''inner'' @ nl @ nl)"
proof -
  have a: "nestingWithin nestedKids 1 (nestedKids ''root'')"
    by (simp add: nestedKids_def branch_def leaf_def)
  have b: "(1 :: nat) < 2" by simp
  have c: "consistentFlags nestedKids"
    by (auto simp: consistentFlags_def nestedKids_def branch_def leaf_def split: if_splits)
  have d: "dom (blockChildren start) \<subseteq> docParents nestedKids"
    by (simp add: start_def)
  have t: "depthFirstText nestedKids 1 (nestedKids ''root'') = ''more'' @ nl @ nl @ ''inner'' @ nl @ nl"
    by (simp add: nestedKids_def branch_def leaf_def)
  from flattened_text [OF a b c d, THEN conjunct1] t
  have "\<exists>w'. collectContent 2 (serving nestedKids) ''root'' start = Some (Inr (), w') \<and>
      contentBuilder w' = ''more'' @ nl @ nl @ ''inner'' @ nl @ nl"
    by (simp add: start_def)
  with a b c d show ?thesis by (intro conjI)
qed

text \<open>
  C1 as stated fails: a divider, a kind without a text payload, contributes the two
  newlines of the separator.
\<close>

theorem no_text_no_characters_counterexample:
  "textPayload (payload (leaf ''d'' DividerBlock)) = None \<and>
   dividerKids ''root'' = [leaf ''d'' DividerBlock] \<and>
   map_option (\<lambda>(r, w). (r, contentBuilder w))
     (collectContent 1 (serving dividerKids) ''root'' start) = Some (Inr (), nl @ nl) \<and>
   nl @ nl \<noteq> []"
  by (simp add: example_defs)

text \<open>
  C2 (as amended). A run in which some list-children operation fails ends with exit
  status 1 and the fetch error on the error stream, and asks for no summary. When the
  failure falls in the first fetch of the page, which fetches the whole tree before
  anything is rendered, the standard output is empty. A later failure (both walks fetch
  again at every node they descend into, and the second walk fetches the page again)
  leaves the output rendered before it.
\<close>

theorem failed_fetch_ends_run:
  assumes run: "main args env NewClient chat fuel = Some (ex, w)"
    and failed: "anyFailed (calls w)"
  shows "ex = Exit 1 \<and> chatCalls w = [] \<and>
    (\<exists>e. stderr w = ''Error fetching blocks: failed to get blocks: '' @ e @ nl \<or>
          stderr w = ''Error collecting content: failed to get blocks: '' @ e @ nl) \<and>
    (\<forall>err w1. fetchChildBlocks fuel (NewClient (Getenv env ''NOTION_API_TOKEN''))
         (formatPageID (args ! 1)) start = Some (Inl err, w1) \<longrightarrow> stdout w = [])"
proof -
  let ?client = "NewClient (Getenv env ''NOTION_API_TOKEN'')"
  let ?page = "formatPageID (args ! 1)"
  have args: "length args = 2" and token: "Getenv env ''NOTION_API_TOKEN'' \<noteq> []"
    using run failed by (auto simp: main_def start_def split: if_splits)
  have first: "stdout w = []"
    if f: "fetchChildBlocks fuel ?client ?page start = Some (Inl err, w1)" for err w1
  proof -
    from f obtain k where k: "fuel = Suc k" by (cases fuel) auto
    from fetch_spec(1) [OF f] obtain new m where
      w1: "w1 = start\<lparr>blockChildren := m, calls := calls start @ new\<rparr>" "fetchError err"
      by blast
    from fetchError_message [OF w1(2)] obtain e where e: "err = Error (''failed to get blocks: '' @ e)" ..
    from f k have "printBlocksRecursive fuel ?client ?page 0 start = Some (Inl err, w1)"
      by (simp del: fetchChildBlocks.simps)
    with args token e have "main args env NewClient chat fuel = Some (fatal ''Error fetching blocks: '' err w1)"
      by (simp add: main_def Let_def)
    with run e w1 show ?thesis by (auto simp: start_def)
  qed
  from main_cases [OF run args token]
  consider
    (print) err w1 where
      "printBlocksRecursive fuel ?client ?page 0 start = Some (Inl err, w1)"
      "(ex, w) = fatal ''Error fetching blocks: '' err w1"
  | (collect) u w1 err w2 where
      "printBlocksRecursive fuel ?client ?page 0 start = Some (Inr u, w1)"
      "collectContent fuel ?client ?page w1 = Some (Inl err, w2)"
      "(ex, w) = fatal ''Error collecting content: '' err w2"
  | (summary) u w1 u' w2 out log cs where
      "printBlocksRecursive fuel ?client ?page 0 start = Some (Inr u, w1)"
      "collectContent fuel ?client ?page w1 = Some (Inr u', w2)"
      "w = w2\<lparr>stdout := stdout w2 @ summaryHeader @ nl @ out, stderr := stderr w2 @ log,
                    chatCalls := chatCalls w2 @ cs\<rparr>"
    by blast
  then have "ex = Exit 1 \<and> chatCalls w = [] \<and>
    (\<exists>e. stderr w = ''Error fetching blocks: failed to get blocks: '' @ e @ nl \<or>
          stderr w = ''Error collecting content: failed to get blocks: '' @ e @ nl)"
  proof cases
    case print
    from print_spec(1) [OF print(1)] obtain new m out where
      s: "w1 = start\<lparr>blockChildren := m, stdout := stdout start @ out, calls := calls start @ new\<rparr>"
        "anyFailed new \<longrightarrow> (\<exists>err'. Inl err = Inl err' \<and> fetchError err')"
      by blast
    have "calls w = new" using print(2) s(1) by (cases err) (auto simp: start_def)
    with failed s(2) have "fetchError err" by auto
    from fetchError_message [OF this] obtain e where "err = Error (''failed to get blocks: '' @ e)" ..
    with print(2) s(1) show ?thesis by (auto simp: start_def)
  next
    case collect
    from print_spec(1) [OF collect(1)] obtain new m out where
      s: "w1 = start\<lparr>blockChildren := m, stdout := stdout start @ out, calls := calls start @ new\<rparr>"
      by blast
    from collect_spec(1) [OF collect(2)] obtain new2 m2 out2 where
      s2: "w2 = w1\<lparr>blockChildren := m2, contentBuilder := contentBuilder w1 @ out2,
                          calls := calls w1 @ new2\<rparr>"
        "fetchError err"
      by blast
    from fetchError_message [OF s2(2)] obtain e where "err = Error (''failed to get blocks: '' @ e)" ..
    with collect(3) s s2(1) show ?thesis by (auto simp: start_def)
  next
    case summary
    from print_spec(1) [OF summary(1)] obtain new m out where
      s: "w1 = start\<lparr>blockChildren := m, stdout := stdout start @ out, calls := calls start @ new\<rparr>"
        "anyFailed new \<longrightarrow> (\<exists>err'. (Inr u :: error + unit) = Inl err' \<and> fetchError err')"
      by blast
    from collect_spec(1) [OF summary(2)] obtain new2 m2 out2 where
      s2: "w2 = w1\<lparr>blockChildren := m2, contentBuilder := contentBuilder w1 @ out2,
                          calls := calls w1 @ new2\<rparr>"
        "anyFailed new2 \<longrightarrow> isl (Inr u' :: error + unit)"
      by blast
    from s s2 summary(3) have "calls w = new @ new2" by (simp add: start_def)
    with failed s(2) s2(2) show ?thesis by auto
  qed
  with first show ?thesis by blast
qed

theorem failed_fetch_ends_run_witness:
  "\<exists>w. main [''main'', ''root''] [''NOTION_API_TOKEN'' \<mapsto> ''secret''] (\<lambda>token. down) noChat 1
         = Some (Exit 1, w) \<and>
       anyFailed (calls w) \<and> chatCalls w = [] \<and> stdout w = [] \<and>
       stderr w = ''Error fetching blocks: failed to get blocks: timeout'' @ nl"
proof -
  let ?env = "[''NOTION_API_TOKEN'' \<mapsto> ''secret'']"
  let ?w1 = "start\<lparr>calls := [Call ''root'' \<lparr>StartCursor = [], PageSize = 100\<rparr> (Inl ''timeout'')]\<rparr>"
  let ?w = "?w1\<lparr>stderr := ''Error fetching blocks: failed to get blocks: timeout'' @ nl\<rparr>"
  have page: "formatPageID ([''main'', ''root''] ! 1) = ''root''"
    by (simp add: formatPageID_def containsHyphen_def)
  have f: "fetchChildBlocks 1 ((\<lambda>token. down) (Getenv ?env ''NOTION_API_TOKEN''))
             (formatPageID ([''main'', ''root''] ! 1)) start
           = Some (Inl (Error ''failed to get blocks: timeout''), ?w1)"
    unfolding page by (simp add: example_defs)
  have run: "main [''main'', ''root''] ?env (\<lambda>token. down) noChat 1 = Some (Exit 1, ?w)"
    by (simp add: main_def Getenv_def formatPageID_def containsHyphen_def example_defs)
  have failed: "anyFailed (calls ?w)" by simp
  from failed_fetch_ends_run [OF run failed] f have "stdout ?w = []" by blast
  with run failed show ?thesis
    by (intro exI [of _ ?w]) (simp add: start_def)
qed

text \<open>
  C2 as stated fails: the service answers the first operation and fails the second, which
  the second walk performs; the run ends with the fetch error after the paragraph was
  rendered.
\<close>

theorem no_partial_output_counterexample:
  "map_option (\<lambda>(e, w). (e, stdout w, stderr w, anyFailed (calls w)))
     (main [''main'', ''root''] [''NOTION_API_TOKEN'' \<mapsto> ''secret''] (\<lambda>token. flaky) noChat 2)
   = Some (Exit 1, ''hi'' @ nl @ nl,
       ''Error collecting content: failed to get blocks: timeout'' @ nl, True)"
  by code_simp

text \<open>
  C3 (as amended). The tree is not built once. Each of the two walks, at the page and again
  at every node it descends into, starts with list-children operations of its own, the
  first of them for the node it is given. The mapping is written by these fetches only: no
  walk removes a key, and every key a walk adds is the identifier of a block that one of
  its operations returned with \<open>has_children\<close> set.
\<close>

theorem walks_fetch_again:
  "(printBlocksRecursive fuel client blockID depth w = Some (r, w') \<longrightarrow>
      (\<exists>new. calls w' = calls w @ new \<and> new \<noteq> [] \<and> callee (hd new) = blockID \<and>
         dom (blockChildren w) \<subseteq> dom (blockChildren w') \<and>
         dom (blockChildren w') \<subseteq> dom (blockChildren w) \<union> withChildren (fetched new))) \<and>
   (collectContent fuel client blockID w = Some (r, w') \<longrightarrow>
      (\<exists>new. calls w' = calls w @ new \<and> new \<noteq> [] \<and> callee (hd new) = blockID \<and>
         dom (blockChildren w) \<subseteq> dom (blockChildren w') \<and>
         dom (blockChildren w') \<subseteq> dom (blockChildren w) \<union> withChildren (fetched new)))"
proof (intro conjI impI)
  assume "printBlocksRecursive fuel client blockID depth w = Some (r, w')"
  from print_spec(1) [OF this] obtain new m out where
    "w' = w\<lparr>blockChildren := m, stdout := stdout w @ out, calls := calls w @ new\<rparr>"
    "new \<noteq> []"
    "hd new = Call blockID \<lparr>StartCursor = [], PageSize = 100\<rparr>
       (client (length (calls w)) blockID \<lparr>StartCursor = [], PageSize = 100\<rparr>)"
    "dom (blockChildren w) \<subseteq> dom m"
    "dom m \<subseteq> dom (blockChildren w) \<union> withChildren (fetched new)"
    by blast
  then show "\<exists>new. calls w' = calls w @ new \<and> new \<noteq> [] \<and> callee (hd new) = blockID \<and>
         dom (blockChildren w) \<subseteq> dom (blockChildren w') \<and>
         dom (blockChildren w') \<subseteq> dom (blockChildren w) \<union> withChildren (fetched new)"
    by (intro exI [of _ new]) simp
next
  assume "collectContent fuel client blockID w = Some (r, w')"
  from collect_spec(1) [OF this] obtain new m out where
    "w' = w\<lparr>blockChildren := m, contentBuilder := contentBuilder w @ out, calls := calls w @ new\<rparr>"
    "new \<noteq> []"
    "hd new = Call blockID \<lparr>StartCursor = [], PageSize = 100\<rparr>
       (client (length (calls w)) blockID \<lparr>StartCursor = [], PageSize = 100\<rparr>)"
    "dom (blockChildren w) \<subseteq> dom m"
    "dom m \<subseteq> dom (blockChildren w) \<union> withChildren (fetched new)"
    by blast
  then show "\<exists>new. calls w' = calls w @ new \<and> new \<noteq> [] \<and> callee (hd new) = blockID \<and>
         dom (blockChildren w) \<subseteq> dom (blockChildren w') \<and>
         dom (blockChildren w') \<subseteq> dom (blockChildren w) \<union> withChildren (fetched new)"
    by (intro exI [of _ new]) simp
qed

theorem walks_fetch_again_witness:
  "(\<exists>r w'. printBlocksRecursive 2 (serving nestedKids) ''root'' 0 start = Some (r, w') \<and>
      (\<exists>new. calls w' = calls start @ new \<and> new \<noteq> [] \<and> callee (hd new) = ''root'' \<and>
         dom (blockChildren start) \<subseteq> dom (blockChildren w') \<and>
         dom (blockChildren w') \<subseteq> dom (blockChildren start) \<union> withChildren (fetched new))) \<and>
   (\<exists>r w'. collectContent 2 (serving nestedKids) ''root'' start = Some (r, w') \<and>
      (\<exists>new. calls w' = calls start @ new \<and> new \<noteq> [] \<and> callee (hd new) = ''root'' \<and>
         dom (blockChildren start) \<subseteq> dom (blockChildren w') \<and>
         dom (blockChildren w') \<subseteq> dom (blockChildren start) \<union> withChildren (fetched new)))"
proof -
  have "\<exists>r w'. printBlocksRecursive 2 (serving nestedKids) ''root'' 0 start = Some (r, w')"
    by (simp add: example_defs)
  then obtain r w' where p: "printBlocksRecursive 2 (serving nestedKids) ''root'' 0 start = Some (r, w')"
    by blast
  have "\<exists>r w'. collectContent 2 (serving nestedKids) ''root'' start = Some (r, w')"
    by (simp add: example_defs)
  then obtain r2 w2 where c: "collectContent 2 (serving nestedKids) ''root'' start = Some (r2, w2)"
    by blast
  from walks_fetch_again [of 2 "serving nestedKids" "''root''" 0 start r w', THEN conjunct1, rule_format, OF p]
    walks_fetch_again [of 2 "serving nestedKids" "''root''" 0 start r2 w2, THEN conjunct2, rule_format, OF c]
    p c
  show ?thesis by blast
qed

text \<open>
  C3 as stated fails: for a page with one toggle that has one paragraph, a run performs six
  operations, four of them for the toggle.
\<close>

theorem tree_built_once_counterexample:
  "map_option (\<lambda>(e, w). (e, map callee (calls w), length (filter (\<lambda>c. callee c = ''A'') (calls w))))
     (main [''main'', ''root''] [''NOTION_API_TOKEN'' \<mapsto> ''secret''] (\<lambda>token. serving nestedKids)
        noChat 2)
   = Some (Exit 0, [''root'', ''A'', ''A'', ''root'', ''A'', ''A''], 4)"
  by code_simp

text \<open>
  C4 (as amended). Without \<open>NOTION_API_TOKEN\<close> the process ends with status 1 before any
  operation on a remote service. Without \<open>OPENAI_API_KEY\<close> (the token and the argument
  given) the page is fetched all the same, no summary is asked for, and a run whose walks
  succeed ends with status 0 after reporting the missing key on the error stream.
\<close>

theorem missing_credentials:
  "(Getenv env ''NOTION_API_TOKEN'' = [] \<longrightarrow>
      (\<exists>w. main args env NewClient chat fuel = Some (Exit 1, w) \<and>
           calls w = [] \<and> chatCalls w = [])) \<and>
   (length args = 2 \<and> Getenv env ''NOTION_API_TOKEN'' \<noteq> [] \<and>
    Getenv env ''OPENAI_API_KEY'' = [] \<and>
    main args env NewClient chat fuel = Some (ex, w) \<longrightarrow>
      calls w \<noteq> [] \<and> chatCalls w = [] \<and>
      (ex = Exit 0 \<longrightarrow>
         stderr w = ''Error generating summary: OPENAI_API_KEY is not set'' @ nl)) \<and>
   (length args = 2 \<and> Getenv env ''NOTION_API_TOKEN'' \<noteq> [] \<and>
    Getenv env ''OPENAI_API_KEY'' = [] \<and>
    printBlocksRecursive fuel (NewClient (Getenv env ''NOTION_API_TOKEN''))
      (formatPageID (args ! 1)) 0 start = Some (Inr u, w1) \<and>
    collectContent fuel (NewClient (Getenv env ''NOTION_API_TOKEN''))
      (formatPageID (args ! 1)) w1 = Some (Inr u', w2) \<longrightarrow>
      main args env NewClient chat fuel =
        Some (Exit 0,
          w2\<lparr>stdout := stdout w2 @ summaryHeader @ nl,
             stderr := stderr w2 @ ''Error generating summary: OPENAI_API_KEY is not set'' @ nl\<rparr>))"
proof -
  let ?client = "NewClient (Getenv env ''NOTION_API_TOKEN'')"
  let ?page = "formatPageID (args ! 1)"
  have no_token: "\<exists>w. main args env NewClient chat fuel = Some (Exit 1, w) \<and>
           calls w = [] \<and> chatCalls w = []"
    if "Getenv env ''NOTION_API_TOKEN'' = []"
    using that by (simp add: main_def start_def)
  have walks: "main args env NewClient chat fuel =
        Some (Exit 0,
          w2\<lparr>stdout := stdout w2 @ summaryHeader @ nl,
             stderr := stderr w2 @ ''Error generating summary: OPENAI_API_KEY is not set'' @ nl\<rparr>)"
    if "length args = 2" "Getenv env ''NOTION_API_TOKEN'' \<noteq> []"
      "Getenv env ''OPENAI_API_KEY'' = []"
      "printBlocksRecursive fuel ?client ?page 0 start = Some (Inr u, w1)"
      "collectContent fuel ?client ?page w1 = Some (Inr u', w2)"
    using that by (simp add: main_def Let_def summarizeContent_def)
  have no_key: "calls w \<noteq> [] \<and> chatCalls w = [] \<and>
      (ex = Exit 0 \<longrightarrow>
         stderr w = ''Error generating summary: OPENAI_API_KEY is not set'' @ nl)"
    if args: "length args = 2" and token: "Getenv env ''NOTION_API_TOKEN'' \<noteq> []"
      and key: "Getenv env ''OPENAI_API_KEY'' = []"
      and run: "main args env NewClient chat fuel = Some (ex, w)"
  proof -
    from main_cases [OF run args token]
    consider
      (print) err w1 where
        "printBlocksRecursive fuel ?client ?page 0 start = Some (Inl err, w1)"
        "(ex, w) = fatal ''Error fetching blocks: '' err w1"
    | (collect) u w1 err w2 where
        "printBlocksRecursive fuel ?client ?page 0 start = Some (Inr u, w1)"
        "collectContent fuel ?client ?page w1 = Some (Inl err, w2)"
        "(ex, w) = fatal ''Error collecting content: '' err w2"
    | (summary) u w1 u' w2 out log cs where
        "printBlocksRecursive fuel ?client ?page 0 start = Some (Inr u, w1)"
        "collectContent fuel ?client ?page w1 = Some (Inr u', w2)"
        "w = w2\<lparr>stdout := stdout w2 @ summaryHeader @ nl @ out, stderr := stderr w2 @ log,
                chatCalls := chatCalls w2 @ cs\<rparr>"
        "Getenv env ''OPENAI_API_KEY'' = [] \<longrightarrow>
           ex = Exit 0 \<and> out = [] \<and> cs = [] \<and>
           log = ''Error generating summary: OPENAI_API_KEY is not set'' @ nl"
      by blast
    then show ?thesis
    proof cases
      case print
      from print_spec(1) [OF print(1)] obtain new m out where
        s: "w1 = start\<lparr>blockChildren := m, stdout := stdout start @ out,
                    calls := calls start @ new\<rparr>"
          "new \<noteq> []"
        by blast
      with print(2) show ?thesis by (cases err) (auto simp: start_def)
    next
      case collect
      from print_spec(1) [OF collect(1)] obtain new m out where
        s: "w1 = start\<lparr>blockChildren := m, stdout := stdout start @ out,
                    calls := calls start @ new\<rparr>"
          "new \<noteq> []"
        by blast
      from collect_spec(1) [OF collect(2)] obtain new2 m2 out2 where
        s2: "w2 = w1\<lparr>blockChildren := m2, contentBuilder := contentBuilder w1 @ out2,
                     calls := calls w1 @ new2\<rparr>"
        by blast
      with s collect(3) show ?thesis by (cases err) (auto simp: start_def)
    next
      case summary
      from print_spec(1) [OF summary(1)] obtain new m out where
        s: "w1 = start\<lparr>blockChildren := m, stdout := stdout start @ out,
                    calls := calls start @ new\<rparr>"
          "new \<noteq> []"
        by blast
      from collect_spec(1) [OF summary(2)] obtain new2 m2 out2 where
        s2: "w2 = w1\<lparr>blockChildren := m2, contentBuilder := contentBuilder w1 @ out2,
                     calls := calls w1 @ new2\<rparr>"
        by blast
      with s summary(3,4) key show ?thesis by (auto simp: start_def)
    qed
  qed
  from no_token walks no_key show ?thesis by blast
qed

theorem missing_credentials_witness:
  "Getenv Map.empty ''NOTION_API_TOKEN'' = [] \<and>
   (\<exists>w. main [''main'', ''root''] Map.empty (\<lambda>token. serving dividerKids) okChat 2
          = Some (Exit 1, w) \<and> calls w = [] \<and> chatCalls w = []) \<and>
   Getenv [''NOTION_API_TOKEN'' \<mapsto> ''secret''] ''NOTION_API_TOKEN'' \<noteq> [] \<and>
   Getenv [''NOTION_API_TOKEN'' \<mapsto> ''secret''] ''OPENAI_API_KEY'' = [] \<and>
   (\<exists>w. main [''main'', ''root''] [''NOTION_API_TOKEN'' \<mapsto> ''secret'']
          (\<lambda>token. serving dividerKids) okChat 2 = Some (Exit 0, w) \<and>
        calls w \<noteq> [] \<and> chatCalls w = [] \<and>
        stderr w = ''Error generating summary: OPENAI_API_KEY is not set'' @ nl)"
proof -
  let ?args = "[''main'', ''root'']"
  let ?env = "[''NOTION_API_TOKEN'' \<mapsto> ''secret'']"
  let ?new = "\<lambda>token :: string. serving dividerKids"
  have none: "Getenv Map.empty ''NOTION_API_TOKEN'' = []" by (simp add: Getenv_def)
  have token: "Getenv ?env ''NOTION_API_TOKEN'' \<noteq> []" by (simp add: Getenv_def)
  have key: "Getenv ?env ''OPENAI_API_KEY'' = []" by (simp add: Getenv_def)
  have args: "length ?args = 2" by simp
  have page: "formatPageID (?args ! 1) = ''root''"
    by (simp add: formatPageID_def containsHyphen_def)
  have "\<exists>w1. printBlocksRecursive 2 (?new (Getenv ?env ''NOTION_API_TOKEN''))
          (formatPageID (?args ! 1)) 0 start = Some (Inr (), w1) \<and>
        (\<exists>w2. collectContent 2 (?new (Getenv ?env ''NOTION_API_TOKEN''))
          (formatPageID (?args ! 1)) w1 = Some (Inr (), w2))"
    unfolding page by (simp add: example_defs)
  then obtain w1 w2 where
    p: "printBlocksRecursive 2 (?new (Getenv ?env ''NOTION_API_TOKEN''))
          (formatPageID (?args ! 1)) 0 start = Some (Inr (), w1)" and
    c: "collectContent 2 (?new (Getenv ?env ''NOTION_API_TOKEN''))
          (formatPageID (?args ! 1)) w1 = Some (Inr (), w2)"
    by blast
  note inst = missing_credentials [where fuel = 2 and chat = okChat]
  from inst [of Map.empty ?args ?new, THEN conjunct1, rule_format, OF none]
  have a: "\<exists>w. main ?args Map.empty ?new okChat 2 = Some (Exit 1, w) \<and>
      calls w = [] \<and> chatCalls w = []" .
  from inst [of ?env ?args ?new, THEN conjunct2, THEN conjunct2, rule_format, of "()" w1 "()" w2]
    args token key p c
  obtain w where run: "main ?args ?env ?new okChat 2 = Some (Exit 0, w)"
    by blast
  from inst [of ?env ?args ?new "Exit 0" w, THEN conjunct2, THEN conjunct1, rule_format]
    args token key run
  have b: "calls w \<noteq> [] \<and> chatCalls w = [] \<and>
      stderr w = ''Error generating summary: OPENAI_API_KEY is not set'' @ nl"
    by blast
  from none token key a run b show ?thesis by blast
qed

text \<open>
  C4 as stated fails for the second credential: without \<open>OPENAI_API_KEY\<close> the run performs
  two list-children operations, renders the page and ends with status 0.
\<close>

theorem missing_key_counterexample:
  "Getenv [''NOTION_API_TOKEN'' \<mapsto> ''secret''] ''OPENAI_API_KEY'' = [] \<and>
   map_option (\<lambda>(e, w). (e, map callee (calls w), stdout w, stderr w))
     (main [''main'', ''root''] [''NOTION_API_TOKEN'' \<mapsto> ''secret'']
        (\<lambda>token. serving dividerKids) okChat 2)
   = Some (Exit 0, [''root'', ''root''], ''---'' @ nl @ nl @ summaryHeader @ nl,
       ''Error generating summary: OPENAI_API_KEY is not set'' @ nl)"
  by code_simp

text \<open>
  C5. After a fetch that returns, the keys that \<open>blockChildren\<close> gained are exactly the
  identifiers of the blocks fetched with \<open>has_children\<close> set: from the empty mapping of
  a fresh process the keys are exactly those identifiers, and so they are at the end of
  every run that ends with status 0. In both walks a block whose identifier is not a key
  is a leaf: the walk renders it, or collects its text, and goes on with the next block.
\<close>

theorem blockChildren_keys:
  "(fetchChildBlocks fuel client blockID start = Some (Inr blocks, w') \<longrightarrow>
      dom (blockChildren w') = withChildren (fetched (calls w'))) \<and>
   (fetchChildBlocks fuel client blockID w = Some (Inr blocks, w') \<longrightarrow>
      (\<exists>new. calls w' = calls w @ new \<and>
         dom (blockChildren w') = dom (blockChildren w) \<union> withChildren (fetched new))) \<and>
   (main args env NewClient chat fuel = Some (Exit 0, w') \<longrightarrow>
      dom (blockChildren w') = withChildren (fetched (calls w'))) \<and>
   (blockChildren w (GetID block) = None \<longrightarrow>
      printEach fuel client (block # rest) depth w =
        (case printBlock block depth of
           Inl err \<Rightarrow> Some (Inl err, w)
         | Inr out \<Rightarrow> printEach fuel client rest depth (w\<lparr>stdout := stdout w @ out\<rparr>)) \<and>
      collectEach fuel client (block # rest) w =
        collectEach fuel client rest
          (w\<lparr>contentBuilder := contentBuilder w @ collectText block @ nl @ nl\<rparr>))"
proof -
  have general: "\<exists>new. calls w' = calls w @ new \<and>
         dom (blockChildren w') = dom (blockChildren w) \<union> withChildren (fetched new)"
    if f: "fetchChildBlocks fuel client blockID w = Some (Inr blocks, w')" for w
  proof -
    from fetch_spec(1) [OF f] obtain new m where
      "w' = w\<lparr>blockChildren := m, calls := calls w @ new\<rparr>"
      "dom m = dom (blockChildren w) \<union> withChildren (fetched new)"
      by auto
    then show ?thesis by (intro exI [of _ new]) simp
  qed
  have from_start: "dom (blockChildren w') = withChildren (fetched (calls w'))"
    if f: "fetchChildBlocks fuel client blockID start = Some (Inr blocks, w')"
  proof -
    from general [OF f] obtain new where "calls w' = calls start @ new"
      "dom (blockChildren w') = dom (blockChildren start) \<union> withChildren (fetched new)"
      by (elim exE conjE)
    then show ?thesis by (simp add: start_def)
  qed
  have run: "dom (blockChildren w') = withChildren (fetched (calls w'))"
    if run: "main args env NewClient chat fuel = Some (Exit 0, w')"
  proof -
    let ?client = "NewClient (Getenv env ''NOTION_API_TOKEN'')"
    let ?page = "formatPageID (args ! 1)"
    have args: "length args = 2" and token: "Getenv env ''NOTION_API_TOKEN'' \<noteq> []"
      using run by (auto simp: main_def split: if_splits)
    have nf: "(Exit 0, w') \<noteq> fatal msg err v" for msg err v
      by (cases err) simp_all
    from main_cases [OF run args token] nf
    obtain u w1 u' w2 out log cs where
      p: "printBlocksRecursive fuel ?client ?page 0 start = Some (Inr u, w1)" and
      c: "collectContent fuel ?client ?page w1 = Some (Inr u', w2)" and
      w: "w' = w2\<lparr>stdout := stdout w2 @ summaryHeader @ nl @ out, stderr := stderr w2 @ log,
                chatCalls := chatCalls w2 @ cs\<rparr>"
      by blast
    from print_spec(1) [OF p] obtain new m out where
      s: "w1 = start\<lparr>blockChildren := m, stdout := stdout start @ out,
                  calls := calls start @ new\<rparr>"
        "dom m = dom (blockChildren start) \<union> withChildren (fetched new)"
      by auto
    from collect_spec(1) [OF c] obtain new2 m2 out2 where
      s2: "w2 = w1\<lparr>blockChildren := m2, contentBuilder := contentBuilder w1 @ out2,
                   calls := calls w1 @ new2\<rparr>"
        "dom m2 = dom (blockChildren w1) \<union> withChildren (fetched new2)"
      by auto
    from s s2 w show ?thesis
      by (simp add: start_def fetched_append withChildren_append)
  qed
  have leaf: "printEach fuel client (block # rest) depth w =
        (case printBlock block depth of
           Inl err \<Rightarrow> Some (Inl err, w)
         | Inr out \<Rightarrow> printEach fuel client rest depth (w\<lparr>stdout := stdout w @ out\<rparr>)) \<and>
      collectEach fuel client (block # rest) w =
        collectEach fuel client rest
          (w\<lparr>contentBuilder := contentBuilder w @ collectText block @ nl @ nl\<rparr>)"
    if "blockChildren w (GetID block) = None"
    using that by (simp del: printBlock.simps collectText.simps cong: sum.case_cong)
  show ?thesis
  proof (intro conjI impI)
    assume "fetchChildBlocks fuel client blockID start = Some (Inr blocks, w')"
    then show "dom (blockChildren w') = withChildren (fetched (calls w'))" by (rule from_start)
  next
    assume "fetchChildBlocks fuel client blockID w = Some (Inr blocks, w')"
    then show "\<exists>new. calls w' = calls w @ new \<and>
         dom (blockChildren w') = dom (blockChildren w) \<union> withChildren (fetched new)"
      by (rule general)
  next
    assume "main args env NewClient chat fuel = Some (Exit 0, w')"
    then show "dom (blockChildren w') = withChildren (fetched (calls w'))" by (rule run)
  next
    assume a: "blockChildren w (GetID block) = None"
    from leaf [OF a] show "printEach fuel client (block # rest) depth w =
        (case printBlock block depth of
           Inl err \<Rightarrow> Some (Inl err, w)
         | Inr out \<Rightarrow> printEach fuel client rest depth (w\<lparr>stdout := stdout w @ out\<rparr>))"
      by (rule conjunct1)
    from leaf [OF a] show "collectEach fuel client (block # rest) w =
        collectEach fuel client rest
          (w\<lparr>contentBuilder := contentBuilder w @ collectText block @ nl @ nl\<rparr>)"
      by (rule conjunct2)
  qed
qed

theorem blockChildren_keys_witness:
  "(\<exists>w'. fetchChildBlocks 2 (serving nestedKids) ''root'' start
            = Some (Inr (nestedKids ''root''), w') \<and>
         dom (blockChildren w') = withChildren (fetched (calls w')) \<and>
         dom (blockChildren w') = {''A''}) \<and>
   blockChildren start (GetID (leaf ''B'' DividerBlock)) = None \<and>
   collectEach 0 (serving nestedKids) [leaf ''B'' DividerBlock] start
     = Some (Inr (), start\<lparr>contentBuilder := nl @ nl\<rparr>) \<and>
   printEach 0 (serving nestedKids) [leaf ''B'' DividerBlock] 0 start
     = Some (Inr (), start\<lparr>stdout := ''---'' @ nl @ nl\<rparr>)"
proof -
  let ?w = "start\<lparr>blockChildren := [''A'' \<mapsto> nestedKids ''A''],
     calls := [Call ''root'' \<lparr>StartCursor = [], PageSize = 100\<rparr> (Inr (lastPage (nestedKids ''root''))),
               Call ''A'' \<lparr>StartCursor = [], PageSize = 100\<rparr> (Inr (lastPage (nestedKids ''A'')))]\<rparr>"
  have f: "fetchChildBlocks 2 (serving nestedKids) ''root'' start
            = Some (Inr (nestedKids ''root''), ?w)"
    by (simp add: example_defs)
  have n: "blockChildren start (GetID (leaf ''B'' DividerBlock)) = None"
    by (simp add: start_def)
  note inst = blockChildren_keys [where fuel = 2 and client = "serving nestedKids"]
  from inst [THEN conjunct1, rule_format, OF f]
  have d: "dom (blockChildren ?w) = withChildren (fetched (calls ?w))" .
  have k: "dom (blockChildren ?w) = {''A''}" by simp
  from blockChildren_keys [where w = start and block = "leaf ''B'' DividerBlock"
      and rest = "[]" and depth = 0 and fuel = 0 and client = "serving nestedKids",
      THEN conjunct2, THEN conjunct2, THEN conjunct2, rule_format, OF n]
  have l: "collectEach 0 (serving nestedKids) [leaf ''B'' DividerBlock] start
     = Some (Inr (), start\<lparr>contentBuilder := nl @ nl\<rparr>) \<and>
   printEach 0 (serving nestedKids) [leaf ''B'' DividerBlock] 0 start
     = Some (Inr (), start\<lparr>stdout := ''---'' @ nl @ nl\<rparr>)"
    by (simp add: leaf_def start_def indent_def)
  from f d k n l show ?thesis by blast
qed




text \<open>
  C7. \<open>formatPageID\<close> returns an identifier that contains a hyphen unchanged, turns an
  identifier of 32 bytes without one into the 8-4-4-4-12 form (36 bytes, the same bytes
  in the same order with four hyphens between them), and returns every other string
  unchanged. The result is what the run asks the remote API for: the first list-children
  operation of every run is for the normalised identifier, so is the first operation after
  the rendering, that of the second walk, and every operation of a run is for the normalised
  identifier or for a block that an answer of the run lists with \<open>has_children\<close>.
\<close>

theorem page_id_normalised:
  "(CHR ''-'' \<in> set s \<longrightarrow> formatPageID s = s) \<and>
   (CHR ''-'' \<notin> set s \<and> length s = 32 \<longrightarrow>
      formatPageID s = take 8 s @ ''-'' @ take 4 (drop 8 s) @ ''-'' @ take 4 (drop 12 s) @ ''-''
        @ take 4 (drop 16 s) @ ''-'' @ drop 20 s \<and>
      length (formatPageID s) = 36 \<and>
      filter (\<lambda>c. c \<noteq> CHR ''-'') (formatPageID s) = s) \<and>
   (CHR ''-'' \<notin> set s \<and> length s \<noteq> 32 \<longrightarrow> formatPageID s = s) \<and>
   (length args = 2 \<and> Getenv env ''NOTION_API_TOKEN'' \<noteq> [] \<and>
    main args env NewClient chat fuel = Some (ex, w) \<longrightarrow>
      (\<exists>reply later.
         calls w = Call (formatPageID (args ! 1)) \<lparr>StartCursor = [], PageSize = 100\<rparr> reply
                     # later)) \<and>
   (length args = 2 \<and> Getenv env ''NOTION_API_TOKEN'' \<noteq> [] \<and>
    main args env NewClient chat fuel = Some (ex, w) \<longrightarrow>
      (\<forall>c\<in>set (calls w).
         callee c = formatPageID (args ! 1) \<or> callee c \<in> withChildren (fetched (calls w)))) \<and>
   (length args = 2 \<and> Getenv env ''NOTION_API_TOKEN'' \<noteq> [] \<and>
    main args env NewClient chat fuel = Some (ex, w) \<and>
    printBlocksRecursive fuel (NewClient (Getenv env ''NOTION_API_TOKEN''))
      (formatPageID (args ! 1)) 0 start = Some (Inr u, w1) \<longrightarrow>
      (\<exists>reply later.
         calls w = calls w1 @ Call (formatPageID (args ! 1)) \<lparr>StartCursor = [], PageSize = 100\<rparr>
                     reply # later))"
proof -
  have walks: "(\<forall>c\<in>set (calls w).
         callee c = formatPageID (args ! 1) \<or> callee c \<in> withChildren (fetched (calls w))) \<and>
      (\<forall>u w1. printBlocksRecursive fuel (NewClient (Getenv env ''NOTION_API_TOKEN''))
           (formatPageID (args ! 1)) 0 start = Some (Inr u, w1) \<longrightarrow>
         (\<exists>reply later.
            calls w = calls w1 @ Call (formatPageID (args ! 1))
                        \<lparr>StartCursor = [], PageSize = 100\<rparr> reply # later))"
    if args: "length args = 2" and token: "Getenv env ''NOTION_API_TOKEN'' \<noteq> []"
      and run: "main args env NewClient chat fuel = Some (ex, w)"
  proof -
    let ?client = "NewClient (Getenv env ''NOTION_API_TOKEN'')"
    let ?page = "formatPageID (args ! 1)"
    let ?pg = "\<lparr>StartCursor = [], PageSize = 100\<rparr>"
    from main_cases [OF run args token]
    consider
      (print) err w1 where
        "printBlocksRecursive fuel ?client ?page 0 start = Some (Inl err, w1)"
        "(ex, w) = fatal ''Error fetching blocks: '' err w1"
    | (collect) u w1 err w2 where
        "printBlocksRecursive fuel ?client ?page 0 start = Some (Inr u, w1)"
        "collectContent fuel ?client ?page w1 = Some (Inl err, w2)"
        "(ex, w) = fatal ''Error collecting content: '' err w2"
    | (summary) u w1 u' w2 out log cs where
        "printBlocksRecursive fuel ?client ?page 0 start = Some (Inr u, w1)"
        "collectContent fuel ?client ?page w1 = Some (Inr u', w2)"
        "w = w2\<lparr>stdout := stdout w2 @ summaryHeader @ nl @ out, stderr := stderr w2 @ log,
                chatCalls := chatCalls w2 @ cs\<rparr>"
      by blast
    then consider
      (first) err w1 where
        "printBlocksRecursive fuel ?client ?page 0 start = Some (Inl err, w1)"
        "calls w = calls w1"
    | (second) u w1 r2 w2 where
        "printBlocksRecursive fuel ?client ?page 0 start = Some (Inr u, w1)"
        "collectContent fuel ?client ?page w1 = Some (r2, w2)"
        "calls w = calls w2"
    proof cases
      case print
      from print(2) have "calls w = calls w1" by (cases err) auto
      with print(1) first show ?thesis by blast
    next
      case collect
      from collect(3) have "calls w = calls w2" by (cases err) auto
      with collect(1,2) second show ?thesis by blast
    next
      case summary
      from summary(3) have "calls w = calls w2" by simp
      with summary(1,2) second show ?thesis by blast
    qed
    then show ?thesis
    proof cases
      case first
      from print_callees(1) [OF first(1)] obtain new m out where
        e: "w1 = start\<lparr>blockChildren := m, stdout := stdout start @ out,
                    calls := calls start @ new\<rparr>"
          "\<forall>c\<in>set new. callee c = ?page \<or>
             callee c \<in> dom (blockChildren start) \<union> withChildren (fetched new)"
        by blast
      from e(1) first(2) have "calls w = new" by (simp add: start_def)
      with e(2) have "\<forall>c\<in>set (calls w).
          callee c = ?page \<or> callee c \<in> withChildren (fetched (calls w))"
        by (simp add: start_def)
      with first(1) show ?thesis by simp
    next
      case second
      from print_callees(1) [OF second(1)] obtain new1 m1 out1 where
        e1: "w1 = start\<lparr>blockChildren := m1, stdout := stdout start @ out1,
                     calls := calls start @ new1\<rparr>"
          "dom m1 \<subseteq> dom (blockChildren start) \<union> withChildren (fetched new1)"
          "\<forall>c\<in>set new1. callee c = ?page \<or>
             callee c \<in> dom (blockChildren start) \<union> withChildren (fetched new1)"
        by blast
      from collect_callees(1) [OF second(2)] obtain new2 m2 out2 where
        e2: "w2 = w1\<lparr>blockChildren := m2, contentBuilder := contentBuilder w1 @ out2,
                     calls := calls w1 @ new2\<rparr>"
          "\<forall>c\<in>set new2. callee c = ?page \<or>
             callee c \<in> dom (blockChildren w1) \<union> withChildren (fetched new2)"
        by blast
      from e1(1) e2(1) second(3) have cw: "calls w = new1 @ new2" by (simp add: start_def)
      have d1: "dom (blockChildren w1) \<subseteq> withChildren (fetched new1)"
        using e1(1,2) by (simp add: start_def)
      have all: "\<forall>c\<in>set (calls w).
          callee c = ?page \<or> callee c \<in> withChildren (fetched (calls w))"
        unfolding cw using e1(3) e2(2) d1
        by (simp add: start_def fetched_append withChildren_append) blast
      from collect_spec(1) [OF second(2)] obtain new m out where
        s: "w2 = w1\<lparr>blockChildren := m, contentBuilder := contentBuilder w1 @ out,
                    calls := calls w1 @ new\<rparr>"
          "new \<noteq> []"
          "hd new = Call ?page ?pg (?client (length (calls w1)) ?page ?pg)"
        by blast
      from s(2) obtain c cs where n: "new = c # cs" by (cases new) auto
      with s(3) have "c = Call ?page ?pg (?client (length (calls w1)) ?page ?pg)" by simp
      with s(1) n second(3) have
        "\<exists>reply later. calls w = calls w1 @ Call ?page ?pg reply # later"
        by simp
      with all second(1) show ?thesis by simp
    qed
  qed
  have hyphenated: "formatPageID s = s" if "CHR ''-'' \<in> set s"
    using that by (rule formatPageID_hyphenated)
  have other: "formatPageID s = s" if "CHR ''-'' \<notin> set s" "length s \<noteq> 32"
    using that by (rule formatPageID_other)
  have plain: "formatPageID s = take 8 s @ ''-'' @ take 4 (drop 8 s) @ ''-'' @ take 4 (drop 12 s) @ ''-''
        @ take 4 (drop 16 s) @ ''-'' @ drop 20 s \<and>
      length (formatPageID s) = 36 \<and>
      filter (\<lambda>c. c \<noteq> CHR ''-'') (formatPageID s) = s"
    if h: "CHR ''-'' \<notin> set s" and l: "length s = 32"
  proof -
    note f = formatPageID_32 [OF h l]
    have keep: "filter (\<lambda>c. c \<noteq> CHR ''-'') t = t" if "set t \<subseteq> set s" for t
      using that h by (intro filter_all) auto
    have k1: "filter (\<lambda>c. c \<noteq> CHR ''-'') (take 8 s) = take 8 s"
      by (rule keep) (rule set_take_subset)
    have k2: "filter (\<lambda>c. c \<noteq> CHR ''-'') (take 4 (drop n s)) = take 4 (drop n s)" for n
      by (rule keep) (rule subset_trans [OF set_take_subset set_drop_subset])
    have k3: "filter (\<lambda>c. c \<noteq> CHR ''-'') (drop 20 s) = drop 20 s"
      by (rule keep) (rule set_drop_subset)
    have "filter (\<lambda>c. c \<noteq> CHR ''-'') (formatPageID s)
        = take 8 s @ take 4 (drop 8 s) @ take 4 (drop 12 s) @ take 4 (drop 16 s) @ drop 20 s"
      unfolding f by (simp add: k1 k2 k3)
    also have "\<dots> = s" using l by (rule pieces_32)
    finally have fil: "filter (\<lambda>c. c \<noteq> CHR ''-'') (formatPageID s) = s" .
    have len: "length (formatPageID s) = 36"
      by (simp only: f length_append length_take length_drop l list.size)
    from f len fil show ?thesis by (intro conjI)
  qed
  have used: "\<exists>reply later.
         calls w = Call (formatPageID (args ! 1)) \<lparr>StartCursor = [], PageSize = 100\<rparr> reply
                     # later"
    if args: "length args = 2" and token: "Getenv env ''NOTION_API_TOKEN'' \<noteq> []"
      and run: "main args env NewClient chat fuel = Some (ex, w)"
  proof -
    let ?client = "NewClient (Getenv env ''NOTION_API_TOKEN'')"
    let ?page = "formatPageID (args ! 1)"
    from main_cases [OF run args token]
    consider
      (print) err w1 where
        "printBlocksRecursive fuel ?client ?page 0 start = Some (Inl err, w1)"
        "(ex, w) = fatal ''Error fetching blocks: '' err w1"
    | (collect) u w1 err w2 where
        "printBlocksRecursive fuel ?client ?page 0 start = Some (Inr u, w1)"
        "collectContent fuel ?client ?page w1 = Some (Inl err, w2)"
        "(ex, w) = fatal ''Error collecting content: '' err w2"
    | (summary) u w1 u' w2 out log cs where
        "printBlocksRecursive fuel ?client ?page 0 start = Some (Inr u, w1)"
        "collectContent fuel ?client ?page w1 = Some (Inr u', w2)"
        "w = w2\<lparr>stdout := stdout w2 @ summaryHeader @ nl @ out, stderr := stderr w2 @ log,
                chatCalls := chatCalls w2 @ cs\<rparr>"
      by blast
    then obtain r1 w1 later where
      p: "printBlocksRecursive fuel ?client ?page 0 start = Some (r1, w1)" and
      w: "calls w = calls w1 @ later"
    proof cases
      case print
      from print(2) have "calls w = calls w1 @ []" by (cases err) auto
      with print(1) that show ?thesis by blast
    next
      case collect
      from collect_spec(1) [OF collect(2)] obtain new2 m2 out2 where
        "w2 = w1\<lparr>blockChildren := m2, contentBuilder := contentBuilder w1 @ out2,
                     calls := calls w1 @ new2\<rparr>"
        by blast
      with collect(3) have "calls w = calls w1 @ new2" by (cases err) auto
      with collect(1) that show ?thesis by blast
    next
      case summary
      from collect_spec(1) [OF summary(2)] obtain new2 m2 out2 where
        "w2 = w1\<lparr>blockChildren := m2, contentBuilder := contentBuilder w1 @ out2,
                     calls := calls w1 @ new2\<rparr>"
        by blast
      with summary(3) have "calls w = calls w1 @ new2" by simp
      with summary(1) that show ?thesis by blast
    qed
    from print_spec(1) [OF p] obtain new m out where
      s: "w1 = start\<lparr>blockChildren := m, stdout := stdout start @ out,
                  calls := calls start @ new\<rparr>"
        "new \<noteq> []"
        "hd new = Call ?page \<lparr>StartCursor = [], PageSize = 100\<rparr>
           (?client (length (calls start)) ?page \<lparr>StartCursor = [], PageSize = 100\<rparr>)"
      by blast
    from s(2) obtain c cs where new: "new = c # cs" by (cases new) auto
    with s w show ?thesis by (simp add: start_def)
  qed
  show ?thesis
  proof (intro conjI impI)
    assume "CHR ''-'' \<in> set s"
    then show "formatPageID s = s" by (rule hyphenated)
  next
    assume a: "CHR ''-'' \<notin> set s \<and> length s = 32"
    then have h: "CHR ''-'' \<notin> set s" and l: "length s = 32" by simp_all
    note p = plain [OF h l]
    from p show "formatPageID s = take 8 s @ ''-'' @ take 4 (drop 8 s) @ ''-'' @ take 4 (drop 12 s) @ ''-''
        @ take 4 (drop 16 s) @ ''-'' @ drop 20 s"
      by (rule conjunct1)
    from p show "length (formatPageID s) = 36"
      by (rule conjunct1 [OF conjunct2])
    from p show "filter (\<lambda>c. c \<noteq> CHR ''-'') (formatPageID s) = s"
      by (rule conjunct2 [OF conjunct2])
  next
    assume "CHR ''-'' \<notin> set s \<and> length s \<noteq> 32"
    then show "formatPageID s = s" using other by simp
  next
    assume "length args = 2 \<and> Getenv env ''NOTION_API_TOKEN'' \<noteq> [] \<and>
      main args env NewClient chat fuel = Some (ex, w)"
    then show "\<exists>reply later.
         calls w = Call (formatPageID (args ! 1)) \<lparr>StartCursor = [], PageSize = 100\<rparr> reply
                     # later"
      by (elim conjE) (rule used)
  next
    assume "length args = 2 \<and> Getenv env ''NOTION_API_TOKEN'' \<noteq> [] \<and>
      main args env NewClient chat fuel = Some (ex, w)"
    then have "length args = 2" "Getenv env ''NOTION_API_TOKEN'' \<noteq> []"
      "main args env NewClient chat fuel = Some (ex, w)"
      by simp_all
    from walks [OF this]
    show "\<forall>c\<in>set (calls w).
         callee c = formatPageID (args ! 1) \<or> callee c \<in> withChildren (fetched (calls w))"
      by (rule conjunct1)
  next
    assume "length args = 2 \<and> Getenv env ''NOTION_API_TOKEN'' \<noteq> [] \<and>
      main args env NewClient chat fuel = Some (ex, w) \<and>
      printBlocksRecursive fuel (NewClient (Getenv env ''NOTION_API_TOKEN''))
        (formatPageID (args ! 1)) 0 start = Some (Inr u, w1)"
    then have a: "length args = 2" "Getenv env ''NOTION_API_TOKEN'' \<noteq> []"
      "main args env NewClient chat fuel = Some (ex, w)"
      and p: "printBlocksRecursive fuel (NewClient (Getenv env ''NOTION_API_TOKEN''))
        (formatPageID (args ! 1)) 0 start = Some (Inr u, w1)"
      by simp_all
    from walks [OF a, THEN conjunct2, rule_format, OF p]
    show "\<exists>reply later.
         calls w = calls w1 @ Call (formatPageID (args ! 1)) \<lparr>StartCursor = [], PageSize = 100\<rparr>
                     reply # later" .
  qed
qed

theorem page_id_normalised_witness:
  "CHR ''-'' \<notin> set ''1ba1af0e3602808ea8ddfbeb8c0b6071'' \<and>
   length ''1ba1af0e3602808ea8ddfbeb8c0b6071'' = 32 \<and>
   formatPageID ''1ba1af0e3602808ea8ddfbeb8c0b6071'' = ''1ba1af0e-3602-808e-a8dd-fbeb8c0b6071'' \<and>
   CHR ''-'' \<in> set ''1ba1af0e-3602-808e-a8dd-fbeb8c0b6071'' \<and>
   formatPageID ''1ba1af0e-3602-808e-a8dd-fbeb8c0b6071'' = ''1ba1af0e-3602-808e-a8dd-fbeb8c0b6071'' \<and>
   CHR ''-'' \<notin> set ''root'' \<and> length ''root'' \<noteq> 32 \<and> formatPageID ''root'' = ''root'' \<and>
   (\<exists>w later. main [''main'', ''1ba1af0e3602808ea8ddfbeb8c0b6071'']
        [''NOTION_API_TOKEN'' \<mapsto> ''secret''] (\<lambda>token. down) noChat 1 = Some (Exit 1, w) \<and>
      calls w = Call ''1ba1af0e-3602-808e-a8dd-fbeb8c0b6071''
                  \<lparr>StartCursor = [], PageSize = 100\<rparr> (Inl ''timeout'') # later) \<and>
   (\<exists>w w1 reply later.
      main [''main'', ''1ba1af0e3602808ea8ddfbeb8c0b6071'']
        [''NOTION_API_TOKEN'' \<mapsto> ''secret''] (\<lambda>token. serving hyphenatedKids) noChat 1
        = Some (Exit 0, w) \<and>
      printBlocksRecursive 1 (serving hyphenatedKids) ''1ba1af0e-3602-808e-a8dd-fbeb8c0b6071'' 0
        start = Some (Inr (), w1) \<and>
      stdout w1 = ''hi'' @ nl @ nl \<and>
      list_all (\<lambda>c. callee c = ''1ba1af0e-3602-808e-a8dd-fbeb8c0b6071'' \<or>
                    callee c \<in> withChildren (fetched (calls w))) (calls w) \<and>
      calls w = calls w1 @ Call ''1ba1af0e-3602-808e-a8dd-fbeb8c0b6071''
                  \<lparr>StartCursor = [], PageSize = 100\<rparr> reply # later)"
proof -
  let ?s = "''1ba1af0e3602808ea8ddfbeb8c0b6071''"
  let ?t = "''1ba1af0e-3602-808e-a8dd-fbeb8c0b6071''"
  let ?args = "[''main'', ?s]"
  let ?env = "[''NOTION_API_TOKEN'' \<mapsto> ''secret'']"
  have a: "CHR ''-'' \<notin> set ?s" "length ?s = 32" by simp_all
  have b: "CHR ''-'' \<in> set ?t" by simp
  have c: "CHR ''-'' \<notin> set ''root''" "length ''root'' \<noteq> 32" by simp_all
  have args: "length ?args = 2" "Getenv ?env ''NOTION_API_TOKEN'' \<noteq> []"
    by (simp_all add: Getenv_def)
  from page_id_normalised [of ?s] a have f: "formatPageID ?s = ?t" by simp
  from page_id_normalised [of ?t] b have g: "formatPageID ?t = ?t" by simp
  from page_id_normalised [of "''root''"] c have h: "formatPageID ''root'' = ''root''" by simp
  have "\<exists>w. main ?args ?env (\<lambda>token. down) noChat 1 = Some (Exit 1, w)"
    using args by (simp add: main_def example_defs)
  then obtain w where run: "main ?args ?env (\<lambda>token. down) noChat 1 = Some (Exit 1, w)" ..
  from page_id_normalised [of _ ?args ?env "\<lambda>token. down" noChat 1 "Exit 1" w] args run
  obtain ans later where
    u: "calls w = Call (formatPageID (?args ! 1)) \<lparr>StartCursor = [], PageSize = 100\<rparr> ans # later"
    by blast
  have u': "calls w = Call ?t \<lparr>StartCursor = [], PageSize = 100\<rparr> (Inl ''timeout'') # later"
  proof -
    have "calls w = Call ?t \<lparr>StartCursor = [], PageSize = 100\<rparr> ans # later"
      using u f by simp
    moreover from run have "answer (hd (calls w)) = Inl ''timeout''"
      using args f by (auto simp: main_def example_defs)
    ultimately show ?thesis by simp
  qed
  from run u' have m: "\<exists>w later. main ?args ?env (\<lambda>token. down) noChat 1 = Some (Exit 1, w) \<and>
      calls w = Call ?t \<lparr>StartCursor = [], PageSize = 100\<rparr> (Inl ''timeout'') # later"
    by blast
  let ?client = "\<lambda>token::string. serving hyphenatedKids"
  have "\<exists>w1. printBlocksRecursive 1 (serving hyphenatedKids) ?t 0 start = Some (Inr (), w1) \<and>
      stdout w1 = ''hi'' @ nl @ nl"
    by (simp add: example_defs hyphenatedKids_def indent_def)
  then obtain w1 where
    p: "printBlocksRecursive 1 (serving hyphenatedKids) ?t 0 start = Some (Inr (), w1)"
    and o: "stdout w1 = ''hi'' @ nl @ nl"
    by blast
  from p have p': "printBlocksRecursive 1 (?client (Getenv ?env ''NOTION_API_TOKEN''))
      (formatPageID (?args ! 1)) 0 start = Some (Inr (), w1)"
    using f by simp
  have "\<exists>w. main ?args ?env ?client noChat 1 = Some (Exit 0, w)"
    using args f by (simp add: main_def example_defs hyphenatedKids_def summarizeContent_def
      Getenv_def indent_def)
  then obtain w' where run': "main ?args ?env ?client noChat 1 = Some (Exit 0, w')" ..
  from page_id_normalised [of _ ?args ?env ?client noChat 1 "Exit 0" w' "()" w1] args run' p'
  have all: "\<forall>c\<in>set (calls w').
      callee c = formatPageID (?args ! 1) \<or> callee c \<in> withChildren (fetched (calls w'))"
    and "\<exists>reply later. calls w' = calls w1 @ Call (formatPageID (?args ! 1))
      \<lparr>StartCursor = [], PageSize = 100\<rparr> reply # later"
    by blast+
  then obtain reply later' where
    v: "calls w' = calls w1 @ Call (formatPageID (?args ! 1))
      \<lparr>StartCursor = [], PageSize = 100\<rparr> reply # later'"
    by blast
  from all f have all': "list_all (\<lambda>c. callee c = ?t \<or>
      callee c \<in> withChildren (fetched (calls w'))) (calls w')"
    by (simp add: list_all_iff)
  from v f have v': "calls w' = calls w1 @ Call ?t \<lparr>StartCursor = [], PageSize = 100\<rparr> reply
      # later'"
    by simp
  from run' p o all' v' have n: "\<exists>w w1 reply later.
      main ?args ?env ?client noChat 1 = Some (Exit 0, w) \<and>
      printBlocksRecursive 1 (serving hyphenatedKids) ?t 0 start = Some (Inr (), w1) \<and>
      stdout w1 = ''hi'' @ nl @ nl \<and>
      list_all (\<lambda>c. callee c = ?t \<or> callee c \<in> withChildren (fetched (calls w))) (calls w) \<and>
      calls w = calls w1 @ Call ?t \<lparr>StartCursor = [], PageSize = 100\<rparr> reply # later"
    by blast
  show ?thesis
    using a b c f g h m n by (intro conjI)
qed

text \<open>
  C8 (as amended). What \<open>printBlock\<close> writes for a block at depth \<open>d\<close>, when it writes
  anything, begins with \<open>4 * d\<close> space characters, and the walk renders the direct
  children of the page at depth 0 and the children of a block one level deeper than the
  block. Every line that \<open>printBlock\<close> begins is indented so: the line of a one-line
  kind, each line of a quote, the two fences of a code block (its language holding no
  newline) and the first line of its text.
  When no text of the block holds a newline (the text of a quote may), these are all the
  lines written but the blank line that ends the pattern of a paragraph, heading, image,
  code block, quote, callout or divider, which is empty at every depth. The indented lines
  have exactly \<open>4 * d\<close> leading spaces, but for the paragraph and the text of a code
  block: that text follows the indentation directly, so that its own leading spaces add to
  them. The lines of the text of a code block after the first are written as they are in the
  text.
\<close>

theorem rendering_indentation:
  "(printBlock block depth = Inr out \<and> out \<noteq> [] \<longrightarrow>
      take (4 * depth) out = replicate (4 * depth) (CHR '' '') \<and>
      leadingSpaces out =
        4 * depth + (case payload block of
                       ParagraphBlock text \<Rightarrow> leadingSpaces (getRichTextContent text)
                     | _ \<Rightarrow> 0)) \<and>
   (printBlock block depth = Inr out \<and> out \<noteq> [] \<and> singleLine (payload block) \<longrightarrow>
      (\<exists>body. emittedLines out = body @ (if blankLineAfter (payload block) then [[]] else []) \<and>
         body \<noteq> [] \<and> list_all (indented depth) body \<and>
         (case payload block of
            ParagraphBlock text \<Rightarrow> True
          | CodeBlock text lang \<Rightarrow> True
          | _ \<Rightarrow> list_all (\<lambda>line. leadingSpaces line = 4 * depth) body))) \<and>
   (payload block = QuoteBlock rt \<and> printBlock block depth = Inr out \<longrightarrow>
      emittedLines out
        = map (\<lambda>line. indent depth @ ''> '' @ line) (SplitLines (getRichTextContent rt)) @ [[]]) \<and>
   (payload block = CodeBlock rt language \<and> oneLine language \<and>
    printBlock block depth = Inr out \<longrightarrow>
      emittedLines out
        = (indent depth @ ''```'' @ language)
            # (indent depth @ hd (SplitLines (getRichTextContent rt)))
            # tl (SplitLines (getRichTextContent rt))
            @ [indent depth @ ''```'', []]) \<and>
   (nestingWithin kids n (kids blockID) \<and> n < fuel \<and> consistentFlags kids \<and>
    neverPanics kids \<and> dom (blockChildren w) \<subseteq> docParents kids \<longrightarrow>
      (\<exists>w'. printBlocksRecursive fuel (serving kids) blockID depth w = Some (Inr (), w') \<and>
         stdout w' = stdout w @ depthFirstRendering kids n depth (kids blockID))) \<and>
   (length args = 2 \<and> Getenv env ''NOTION_API_TOKEN'' \<noteq> [] \<and>
    nestingWithin kids n (kids (formatPageID (args ! 1))) \<and> n < fuel \<and>
    consistentFlags kids \<and> neverPanics kids \<longrightarrow>
      (\<exists>ex w rest. main args env (\<lambda>token. serving kids) chat fuel = Some (ex, w) \<and>
         stdout w = depthFirstRendering kids n 0 (kids (formatPageID (args ! 1))) @ rest))"
proof (intro conjI impI)
  assume "printBlock block depth = Inr out \<and> out \<noteq> []"
  then have p: "printBlock block depth = Inr out" and n: "out \<noteq> []" by simp_all
  from printBlock_indented [OF p n]
  show "take (4 * depth) out = replicate (4 * depth) (CHR '' '')"
    and "leadingSpaces out =
        4 * depth + (case payload block of
                       ParagraphBlock text \<Rightarrow> leadingSpaces (getRichTextContent text)
                     | _ \<Rightarrow> 0)"
    by simp_all
next
  assume "printBlock block depth = Inr out \<and> out \<noteq> [] \<and> singleLine (payload block)"
  then have p: "printBlock block depth = Inr out" and n: "out \<noteq> []"
    and s: "singleLine (payload block)"
    by simp_all
  note l = printBlock_lines [OF p n s]
  let ?ls = "emittedLines out"
  from l have ne: "?ls \<noteq> []" by simp
  show "\<exists>body. ?ls = body @ (if blankLineAfter (payload block) then [[]] else []) \<and>
         body \<noteq> [] \<and> list_all (indented depth) body \<and>
         (case payload block of
            ParagraphBlock text \<Rightarrow> True
          | CodeBlock text lang \<Rightarrow> True
          | _ \<Rightarrow> list_all (\<lambda>line. leadingSpaces line = 4 * depth) body)"
  proof (cases "blankLineAfter (payload block)")
    case True
    from ne have "?ls = butlast ?ls @ [last ?ls]" by simp
    with l True have "?ls = butlast ?ls @ [[]]" by simp
    with l True show ?thesis
      by (intro exI [of _ "butlast ?ls"]) simp
  next
    case False
    with l show ?thesis
      by (intro exI [of _ ?ls]) (simp split: Payload.splits)
  qed
next
  assume "payload block = QuoteBlock rt \<and> printBlock block depth = Inr out"
  then have "out = concat (map (\<lambda>line. indent depth @ ''> '' @ line @ nl)
      (SplitLines (getRichTextContent rt))) @ nl"
    by (auto simp del: getRichTextContent.simps)
  then show "emittedLines out
        = map (\<lambda>line. indent depth @ ''> '' @ line) (SplitLines (getRichTextContent rt)) @ [[]]"
    by (simp only: emittedLines_quote)
next
  assume "payload block = CodeBlock rt language \<and> oneLine language \<and>
    printBlock block depth = Inr out"
  then have l: "oneLine language" and "out = indent depth @ ''```'' @ language @ nl
      @ indent depth @ getRichTextContent rt @ nl @ indent depth @ ''```'' @ nl @ nl"
    by (auto simp del: getRichTextContent.simps)
  then show "emittedLines out
        = (indent depth @ ''```'' @ language)
            # (indent depth @ hd (SplitLines (getRichTextContent rt)))
            # tl (SplitLines (getRichTextContent rt))
            @ [indent depth @ ''```'', []]"
    by (simp only: emittedLines_code [OF l])
next
  assume "nestingWithin kids n (kids blockID) \<and> n < fuel \<and> consistentFlags kids \<and>
    neverPanics kids \<and> dom (blockChildren w) \<subseteq> docParents kids"
  then have a: "nestingWithin kids n (kids blockID)" "n < fuel" "consistentFlags kids"
    "dom (blockChildren w) \<subseteq> docParents kids" "neverPanics kids"
    by simp_all
  from printBlocksRecursive_serving [OF a, of depth] obtain m new where
    "printBlocksRecursive fuel (serving kids) blockID depth w
       = Some (Inr (), w\<lparr>blockChildren := m,
                 stdout := stdout w @ depthFirstRendering kids n depth (kids blockID),
                 calls := calls w @ new\<rparr>)"
    by blast
  then show "\<exists>w'. printBlocksRecursive fuel (serving kids) blockID depth w = Some (Inr (), w') \<and>
         stdout w' = stdout w @ depthFirstRendering kids n depth (kids blockID)"
    by simp
next
  assume "length args = 2 \<and> Getenv env ''NOTION_API_TOKEN'' \<noteq> [] \<and>
    nestingWithin kids n (kids (formatPageID (args ! 1))) \<and> n < fuel \<and>
    consistentFlags kids \<and> neverPanics kids"
  then have a: "length args = 2" "Getenv env ''NOTION_API_TOKEN'' \<noteq> []"
    "nestingWithin kids n (kids (formatPageID (args ! 1)))" "n < fuel"
    "consistentFlags kids" "neverPanics kids"
    by simp_all
  show "\<exists>ex w rest. main args env (\<lambda>token. serving kids) chat fuel = Some (ex, w) \<and>
         stdout w = depthFirstRendering kids n 0 (kids (formatPageID (args ! 1))) @ rest"
    by (rule main_serving [OF a])
qed

theorem rendering_indentation_witness:
  "printBlock (leaf ''h'' (Heading1Block [RichText ''Intro''])) 2
     = Inr (''        # Intro'' @ nl @ nl) \<and>
   singleLine (payload (leaf ''h'' (Heading1Block [RichText ''Intro'']))) \<and>
   take 8 (''        # Intro'' @ nl @ nl) = replicate 8 (CHR '' '') \<and>
   leadingSpaces (''        # Intro'' @ nl @ nl) = 8 \<and>
   (\<exists>body. emittedLines (''        # Intro'' @ nl @ nl) = body @ [[]] \<and> body \<noteq> [] \<and>
      list_all (indented 2) body \<and> list_all (\<lambda>line. leadingSpaces line = 8) body) \<and>
   printBlock (leaf ''q'' (QuoteBlock [RichText (''a'' @ nl @ ''b'')])) 2
     = Inr (''        > a'' @ nl @ ''        > b'' @ nl @ nl) \<and>
   emittedLines (''        > a'' @ nl @ ''        > b'' @ nl @ nl)
     = [''        > a'', ''        > b'', []] \<and>
   oneLine ''go'' \<and>
   printBlock (leaf ''c'' (CodeBlock [RichText (''a'' @ nl @ ''b'')] ''go'')) 1
     = Inr (''    ```go'' @ nl @ ''    a'' @ nl @ ''b'' @ nl @ ''    ```'' @ nl @ nl) \<and>
   emittedLines (''    ```go'' @ nl @ ''    a'' @ nl @ ''b'' @ nl @ ''    ```'' @ nl @ nl)
     = [''    ```go'', ''    a'', ''b'', ''    ```'', []] \<and>
   nestingWithin nestedKids 1 (nestedKids ''root'') \<and> (1 :: nat) < 2 \<and>
   consistentFlags nestedKids \<and> neverPanics nestedKids \<and>
   dom (blockChildren start) \<subseteq> docParents nestedKids \<and>
   (\<exists>w'. printBlocksRecursive 2 (serving nestedKids) ''root'' 0 start = Some (Inr (), w') \<and>
      stdout w' = ''- more'' @ nl @ ''    inner'' @ nl @ nl) \<and>
   (\<exists>ex w rest. main [''main'', ''root''] [''NOTION_API_TOKEN'' \<mapsto> ''secret'']
        (\<lambda>token. serving nestedKids) noChat 2 = Some (ex, w) \<and>
      stdout w = ''- more'' @ nl @ ''    inner'' @ nl @ nl @ rest)"
proof -
  let ?h = "leaf ''h'' (Heading1Block [RichText ''Intro''])"
  let ?hout = "''        # Intro'' @ nl @ nl"
  let ?q = "leaf ''q'' (QuoteBlock [RichText (''a'' @ nl @ ''b'')])"
  let ?qout = "''        > a'' @ nl @ ''        > b'' @ nl @ nl"
  let ?c = "leaf ''c'' (CodeBlock [RichText (''a'' @ nl @ ''b'')] ''go'')"
  let ?cout = "''    ```go'' @ nl @ ''    a'' @ nl @ ''b'' @ nl @ ''    ```'' @ nl @ nl"
  let ?args = "[''main'', ''root'']"
  let ?env = "[''NOTION_API_TOKEN'' \<mapsto> ''secret'']"
  have hp: "printBlock ?h 2 = Inr ?hout"
    by (simp add: leaf_def indent_def numeral_2_eq_2)
  have hn: "?hout \<noteq> []" by simp
  have hs: "singleLine (payload ?h)" by (simp add: leaf_def oneLine_def)
  from rendering_indentation [of ?h 2 ?hout] hp hn
  have h1: "take 8 ?hout = replicate 8 (CHR '' '')" and h2: "leadingSpaces ?hout = 8"
    by (simp_all add: leaf_def)
  from rendering_indentation [of ?h 2 ?hout] hp hn hs
  have h3: "\<exists>body. emittedLines ?hout = body @ [[]] \<and> body \<noteq> [] \<and>
      list_all (indented 2) body \<and> list_all (\<lambda>line. leadingSpaces line = 8) body"
    by (simp add: leaf_def)
  have qp: "printBlock ?q 2 = Inr ?qout"
    by (simp add: leaf_def indent_def numeral_2_eq_2)
  have qa: "payload ?q = QuoteBlock [RichText (''a'' @ nl @ ''b'')]" by (simp add: leaf_def)
  from rendering_indentation [of ?q 2 ?qout "[RichText (''a'' @ nl @ ''b'')]"] qp qa
  have q1: "emittedLines ?qout = [''        > a'', ''        > b'', []]"
    by (simp add: indent_def numeral_2_eq_2)
  have l: "oneLine ''go''" by (simp add: oneLine_def)
  have cp: "printBlock ?c 1 = Inr ?cout"
    by (simp add: leaf_def indent_def)
  have ca: "payload ?c = CodeBlock [RichText (''a'' @ nl @ ''b'')] ''go''" by (simp add: leaf_def)
  from rendering_indentation [of ?c 1 ?cout "[RichText (''a'' @ nl @ ''b'')]" "''go''"] cp ca l
  have c1: "emittedLines ?cout = [''    ```go'', ''    a'', ''b'', ''    ```'', []]"
    by (simp add: indent_def)
  have a: "nestingWithin nestedKids 1 (nestedKids ''root'')"
    by (simp add: nestedKids_def branch_def leaf_def)
  have b: "(1 :: nat) < 2" by simp
  have c: "consistentFlags nestedKids"
    by (auto simp: consistentFlags_def nestedKids_def branch_def leaf_def split: if_splits)
  have p: "neverPanics nestedKids"
    by (auto simp: neverPanics_def nestedKids_def branch_def leaf_def split: if_splits)
  have d: "dom (blockChildren start) \<subseteq> docParents nestedKids"
    by (simp add: start_def)
  have t: "depthFirstRendering nestedKids 1 0 (nestedKids ''root'')
      = ''- more'' @ nl @ ''    inner'' @ nl @ nl"
    by (simp add: nestedKids_def branch_def leaf_def indent_def)
  from rendering_indentation [of _ 0 _ _ _ nestedKids 1 "''root''" 2 start] a b c p d t
  have w: "\<exists>w'. printBlocksRecursive 2 (serving nestedKids) ''root'' 0 start = Some (Inr (), w') \<and>
      stdout w' = ''- more'' @ nl @ ''    inner'' @ nl @ nl"
    by (simp add: start_def)
  have args: "length ?args = 2" "Getenv ?env ''NOTION_API_TOKEN'' \<noteq> []"
    "formatPageID (?args ! 1) = ''root''"
    by (simp_all add: Getenv_def formatPageID_def containsHyphen_def)
  from rendering_indentation [of _ _ _ _ _ nestedKids 1 _ 2 _ ?args ?env noChat] a b c p args t
  have m: "\<exists>ex w rest. main ?args ?env (\<lambda>token. serving nestedKids) noChat 2 = Some (ex, w) \<and>
      stdout w = ''- more'' @ nl @ ''    inner'' @ nl @ nl @ rest"
    by simp
  from hp hs h1 h2 h3 qp q1 l cp c1 a b c p d w m show ?thesis
    by (intro conjI)
qed

text \<open>
  C8 as stated fails: the heading at depth 1 is followed by a blank line, a line with no
  leading space; a paragraph whose text begins with a space has one leading space at depth
  0; and the second line of a paragraph of two lines has none at depth 1.
\<close>

theorem every_line_indented_counterexample:
  "printBlock (leaf ''h'' (Heading1Block [RichText ''a''])) 1 = Inr (''    # a'' @ nl @ nl) \<and>
   map leadingSpaces (emittedLines (''    # a'' @ nl @ nl)) = [4, 0] \<and>
   printBlock (leaf ''p'' (ParagraphBlock [RichText '' a''])) 0 = Inr ('' a'' @ nl @ nl) \<and>
   map leadingSpaces (emittedLines ('' a'' @ nl @ nl)) = [1, 0] \<and>
   printBlock (leaf ''p'' (ParagraphBlock [RichText (''a'' @ nl @ ''b'')])) 1
     = Inr (''    a'' @ nl @ ''b'' @ nl @ nl) \<and>
   map leadingSpaces (emittedLines (''    a'' @ nl @ ''b'' @ nl @ nl)) = [4, 0, 0]"
  by (simp add: leaf_def indent_def emittedLines_def leadingSpaces_def)

text \<open>
  C9. A numbered-list item is rendered as the indentation, the literal \<open>1. \<close>, its text
  and a newline, whatever its position: two sibling items are both rendered with the
  prefix \<open>1. \<close>.
\<close>

theorem numbered_item_prefix:
  "printBlock \<lparr>GetID = i, GetHasChildren = h, payload = NumberedListItemBlock rt\<rparr> depth
     = Inr (indent depth @ ''1. '' @ getRichTextContent rt @ nl) \<and>
   printEach fuel client
     [\<lparr>GetID = i, GetHasChildren = h, payload = NumberedListItemBlock rt\<rparr>,
      \<lparr>GetID = i', GetHasChildren = h', payload = NumberedListItemBlock rt'\<rparr>] depth start
     = Some (Inr (),
         start\<lparr>stdout := indent depth @ ''1. '' @ getRichTextContent rt @ nl
                    @ indent depth @ ''1. '' @ getRichTextContent rt' @ nl\<rparr>)"
  by (simp add: start_def del: getRichTextContent.simps)

theorem numbered_item_prefix_witness:
  "printEach 0 down
     [leaf ''n1'' (NumberedListItemBlock [RichText ''first'']),
      leaf ''n2'' (NumberedListItemBlock [RichText ''second''])] 1 start
     = Some (Inr (), start\<lparr>stdout := ''    1. first'' @ nl @ ''    1. second'' @ nl\<rparr>)"
  using numbered_item_prefix [of "''n1''" False "[RichText ''first'']" 1 0 down "''n2''" False
      "[RichText ''second'']"]
  by (simp add: leaf_def indent_def)

text \<open>
  C10. Normalising a page identifier twice is the same as normalising it once: for every
  string \<open>s\<close>, \<open>formatPageID (formatPageID s) = formatPageID s\<close>.
\<close>

theorem formatPageID_idempotent: "formatPageID (formatPageID s) = formatPageID s"
proof (cases "CHR ''-'' \<in> set s")
  case True
  then show ?thesis by (simp add: formatPageID_hyphenated)
next
  case False
  show ?thesis
  proof (cases "length s = 32")
    case True
    with False have "CHR ''-'' \<in> set (formatPageID s)"
      by (simp add: formatPageID_32)
    then show ?thesis by (rule formatPageID_hyphenated)
  next
    case short: False
    with False show ?thesis by (simp add: formatPageID_other)
  qed
qed

end
